theory Spec2Isabelle
  imports Complex_Main
begin

section \<open>Python values used by the sequence analysis engine\<close>

text \<open>
  Exceptions of the Python source are values: a function that can raise returns
  \<open>error + 'a\<close>, with \<open>Inl\<close> carrying the exception.
\<close>

datatype error = IndexError | KeyError | ZeroDivisionError | ValueError

text \<open>
  A DNA sequence is a Python \<open>str\<close>, modelled as a \<open>string\<close>: the list of its
  characters. Python integers are unbounded, so parameters and counts are \<open>int\<close>.
\<close>

text \<open>
  A Python \<open>dict\<close> keeps its keys in insertion order, and the engine depends on that
  order (ranking ties). It is an association list with distinct keys: assigning to an
  existing key replaces the value in place, assigning to a new key appends at the end.
\<close>

type_synonym ('k, 'v) dict = "('k \<times> 'v) list"

definition keys :: "('k, 'v) dict \<Rightarrow> 'k list" where
  "keys d = map fst d"

definition dict_values :: "('k, 'v) dict \<Rightarrow> 'v list" where
  "dict_values d = map snd d"

text \<open>\<open>d[k] = v\<close>\<close>

fun dict_set :: "'k \<Rightarrow> 'v \<Rightarrow> ('k, 'v) dict \<Rightarrow> ('k, 'v) dict" where
  "dict_set k v [] = [(k, v)]"
| "dict_set k v (p # d) = (if fst p = k then (k, v) # d else p # dict_set k v d)"

text \<open>\<open>d[k]\<close>, which raises KeyError on a missing key\<close>

definition dict_get :: "('k, 'v) dict \<Rightarrow> 'k \<Rightarrow> error + 'v" where
  "dict_get d k = (case map_of d k of None \<Rightarrow> Inl KeyError | Some v \<Rightarrow> Inr v)"

text \<open>\<open>d[k] += v\<close>: reads \<open>d[k]\<close> (KeyError on a missing key), then stores the sum\<close>

definition dict_add :: "'k \<Rightarrow> 'v::plus \<Rightarrow> ('k, 'v) dict \<Rightarrow> error + ('k, 'v) dict" where
  "dict_add k v d = (case dict_get d k of Inl e \<Rightarrow> Inl e | Inr c \<Rightarrow> Inr (dict_set k (c + v) d))"

text \<open>A \<open>for\<close> loop whose body may raise: the first exception ends the loop.\<close>

fun for_each :: "('a \<Rightarrow> 's \<Rightarrow> error + 's) \<Rightarrow> 'a list \<Rightarrow> 's \<Rightarrow> error + 's" where
  "for_each body [] s = Inr s"
| "for_each body (x # xs) s =
     (case body x s of Inl e \<Rightarrow> Inl e | Inr s' \<Rightarrow> for_each body xs s')"

text \<open>
  The slice \<open>xs[a:b]\<close> with Python's rules: a negative bound counts from the end, and
  both bounds are clamped to the list.
\<close>

definition py_slice :: "'a list \<Rightarrow> int \<Rightarrow> int \<Rightarrow> 'a list" where
  "py_slice xs a b =
     (let n = int (length xs);
          lo = (if a < 0 then max 0 (a + n) else min a n);
          hi = (if b < 0 then max 0 (b + n) else min b n)
      in take (nat (hi - lo)) (drop (nat lo) xs))"

section \<open>The sliding window: \<open>substrings\<close>\<close>

text \<open>
  \<open>for i in range(0, seq_len, hop_len)\<close>: the loop variable starts at 0 and grows by
  \<open>hop_len\<close> while it is below \<open>seq_len\<close>; a negative step gives an empty range.
  The generator is modelled by the list of the values it yields, in order.
\<close>

function substrings_from :: "string \<Rightarrow> int \<Rightarrow> int \<Rightarrow> nat \<Rightarrow> string list" where
  "substrings_from seq win_len hop_len i =
     (if 0 < hop_len \<and> i < length seq then
        (let substring = py_slice seq (int i) (int i + win_len)
         in if int (length substring) \<noteq> win_len then []
            else substring # substrings_from seq win_len hop_len (i + nat hop_len))
      else [])"
  by pat_completeness auto
termination
  by (relation "measure (\<lambda>(seq, win_len, hop_len, i). length seq - i)") auto

declare substrings_from.simps [simp del]

text \<open>\<open>range\<close> raises ValueError for a step of zero.\<close>

definition substrings :: "string \<Rightarrow> int \<Rightarrow> int \<Rightarrow> error + string list" where
  "substrings seq win_len hop_len =
     (if hop_len = 0 then Inl ValueError else Inr (substrings_from seq win_len hop_len 0))"

section \<open>Counting k-mers: \<open>find_k_mers\<close>\<close>

text \<open>
  The loop body of \<open>find_k_mers\<close>: a new key is entered with count 0, then the key's
  count is incremented.
\<close>

definition count_k_mer :: "string \<Rightarrow> (string, int) dict \<Rightarrow> error + (string, int) dict" where
  "count_k_mer substring k_mer_stats =
     (let k_mer_stats' =
            (if substring \<notin> set (keys k_mer_stats) then dict_set substring 0 k_mer_stats
             else k_mer_stats)
      in dict_add substring 1 k_mer_stats')"

definition find_k_mers :: "string \<Rightarrow> int \<Rightarrow> error + (string, int) dict" where
  "find_k_mers sequence k =
     (case substrings sequence k 1 of
        Inl e \<Rightarrow> Inl e
      | Inr ws \<Rightarrow> for_each count_k_mer ws [])"

text \<open>
  The value stored for a key, 0 for a key that is absent (\<open>d.get(k, 0)\<close>). Used to
  state results; the code itself goes through \<open>dict_get\<close>.
\<close>

definition value_or_0 :: "('k, 'v::zero) dict \<Rightarrow> 'k \<Rightarrow> 'v" where
  "value_or_0 d k = (case map_of d k of None \<Rightarrow> 0 | Some c \<Rightarrow> c)"

text \<open>
  \<open>if key not in d: d[key] = 0\<close> followed by \<open>d[key] += v\<close>, as one step on the
  dict. The loop bodies \<open>count_k_mer\<close> and \<open>aggregate_k_mer\<close> are shown to compute it.
\<close>

definition dict_incr :: "'k \<Rightarrow> int \<Rightarrow> ('k, int) dict \<Rightarrow> ('k, int) dict" where
  "dict_incr k v d = dict_set k (value_or_0 d k + v) d"

section \<open>Ranking k-mers: \<open>apply_foreach\<close> and \<open>find_top_k_mers\<close>\<close>

record seq_object =
  num_sequences :: int
  sequence_length :: int
  sequences :: "string list"

text \<open>\<open>apply_foreach\<close> runs the analysis on each sequence in dataset order.\<close>

fun apply_each :: "('a \<Rightarrow> error + 'b) \<Rightarrow> 'a list \<Rightarrow> error + 'b list" where
  "apply_each analysis_func [] = Inr []"
| "apply_each analysis_func (seq # seqs) =
     (case analysis_func seq of
        Inl e \<Rightarrow> Inl e
      | Inr seq_stats \<Rightarrow>
          (case apply_each analysis_func seqs of
             Inl e \<Rightarrow> Inl e
           | Inr stats \<Rightarrow> Inr (seq_stats # stats)))"

definition apply_foreach :: "seq_object \<Rightarrow> (string \<Rightarrow> error + 'b) \<Rightarrow> error + 'b list" where
  "apply_foreach seq_obj analysis_func = apply_each analysis_func (sequences seq_obj)"

text \<open>
  \<open>items.sort(key=lambda kv: kv[1], reverse=True)\<close> is a stable sort by decreasing
  count: entries with equal counts keep their order. \<open>sort_key\<close> is a stable
  insertion sort by increasing key, so the key is the negated count.
  \<open>items[:top]\<close> is the slice from 0 to \<open>top\<close>.
\<close>

definition get_top_values :: "int \<Rightarrow> (string, int) dict \<Rightarrow> (string \<times> int) list" where
  "get_top_values top' d =
     (let items = sort_key (\<lambda>kv. - snd kv) d;
          top_n = py_slice items 0 top'
      in top_n)"

text \<open>The inner loop body of the combined mode.\<close>

definition aggregate_k_mer ::
  "string \<times> int \<Rightarrow> (string, int) dict \<Rightarrow> error + (string, int) dict" where
  "aggregate_k_mer kv aggregated_k_mer_stats =
     (let key = fst kv; value = snd kv;
          aggregated' =
            (if key \<notin> set (keys aggregated_k_mer_stats)
             then dict_set key 0 aggregated_k_mer_stats
             else aggregated_k_mer_stats)
      in dict_add key value aggregated')"

definition find_top_k_mers ::
  "seq_object \<Rightarrow> int \<Rightarrow> int \<Rightarrow> bool \<Rightarrow> error + (string \<times> int) list list" where
  "find_top_k_mers seq_obj top' k per_sequence =
     (case apply_foreach seq_obj (\<lambda>seq. find_k_mers seq k) of
        Inl e \<Rightarrow> Inl e
      | Inr all_k_mer_stats \<Rightarrow>
          if per_sequence then Inr (map (get_top_values top') all_k_mer_stats)
          else
            (case for_each (\<lambda>seq_results. for_each aggregate_k_mer seq_results)
                    all_k_mer_stats [] of
               Inl e \<Rightarrow> Inl e
             | Inr aggregated_k_mer_stats \<Rightarrow>
                 Inr [get_top_values top' aggregated_k_mer_stats]))"

text \<open>
  Storing under a key that is new to a dict appends the key; storing under a known
  key leaves the keys as they are.
\<close>

definition insert_key :: "'a \<Rightarrow> 'a list \<Rightarrow> 'a list" where
  "insert_key k ks = (if k \<in> set ks then ks else ks @ [k])"

text \<open>
  The distinct elements of a list in the order of their first occurrence
  (\<open>remdups\<close> keeps the last occurrence of each element, so the list is reversed
  before and after). Used to state the order in which keys are first encountered.
\<close>

definition first_seen :: "'a list \<Rightarrow> 'a list" where
  "first_seen xs = rev (remdups (rev xs))"

section \<open>Composition: \<open>get_gc_stats\<close> and \<open>get_dinucleotide_freqs\<close>\<close>

text \<open>
  Python's \<open>/\<close> raises ZeroDivisionError for a zero divisor. Floating-point numbers
  are modelled by the reals: rounding is not modelled.
\<close>

definition py_truediv :: "real \<Rightarrow> real \<Rightarrow> error + real" where
  "py_truediv a b = (if b = 0 then Inl ZeroDivisionError else Inr (a / b))"

text \<open>
  A base is a one-character string, and \<open>valid_nucleobases\<close> is a list of strings, so
  \<open>base not in valid_nucleobases\<close> compares the one-character string with each entry.
\<close>

definition get_gc_stats :: "string \<Rightarrow> string list option \<Rightarrow> error + (string, real) dict" where
  "get_gc_stats sequence valid_nucleobases =
     (let total_valid =
            (case valid_nucleobases of
               None \<Rightarrow> int (length sequence)
             | Some valid \<Rightarrow>
                 (let num_invalid = int (length (filter (\<lambda>base. [base] \<notin> set valid) sequence))
                  in int (length sequence) - num_invalid));
          num_c = int (count_list sequence CHR ''C'');
          num_g = int (count_list sequence CHR ''G'')
      in case py_truediv (of_int (num_c + num_g)) (of_int total_valid) of
           Inl e \<Rightarrow> Inl e
         | Inr gc_distribution \<Rightarrow>
             (case py_truediv (of_int (num_g - num_c)) (of_int (num_g + num_c)) of
                Inl e \<Rightarrow> Inl e
              | Inr gc_skew \<Rightarrow>
                  Inr [(''gc_distribution'', gc_distribution), (''gc_skew'', gc_skew)]))"

text \<open>
  A dict comprehension \<open>{k: v for x in xs}\<close>: the entries are stored in order, and an
  exception raised while an entry is computed ends the comprehension.
\<close>

definition dict_comp :: "('a \<Rightarrow> error + 'k \<times> 'v) \<Rightarrow> 'a list \<Rightarrow> error + ('k, 'v) dict" where
  "dict_comp entry xs =
     for_each (\<lambda>x d. case entry x of Inl e \<Rightarrow> Inl e | Inr kv \<Rightarrow> Inr (dict_set (fst kv) (snd kv) d))
       xs []"

text \<open>The loop body of \<open>get_dinucleotide_freqs\<close>: only a window that is a key is counted.\<close>

definition count_dinucleotide :: "string \<Rightarrow> (string, int) dict \<Rightarrow> error + (string, int) dict" where
  "count_dinucleotide d dinucleotide_counts =
     (if d \<in> set (keys dinucleotide_counts) then dict_add d 1 dinucleotide_counts
      else Inr dinucleotide_counts)"

text \<open>
  The global \<open>SETTINGS["valid_nucleobases"]\<close> read by \<open>get_dinucleotide_freqs\<close> is
  the first parameter.
\<close>

definition get_dinucleotide_freqs :: "string list \<Rightarrow> string \<Rightarrow> error + (string, real) dict" where
  "get_dinucleotide_freqs valid_nucleobases sequence =
     (let valid_dinucleotides =
            concat (map (\<lambda>i. map (\<lambda>j. i @ j) valid_nucleobases) valid_nucleobases)
      in case dict_comp (\<lambda>d. Inr (d, 0)) valid_dinucleotides of
           Inl e \<Rightarrow> Inl e
         | Inr dinucleotide_counts \<Rightarrow>
             (case substrings sequence 2 2 of
                Inl e \<Rightarrow> Inl e
              | Inr dinucleotides \<Rightarrow>
                  (case for_each count_dinucleotide dinucleotides dinucleotide_counts of
                     Inl e \<Rightarrow> Inl e
                   | Inr counted \<Rightarrow>
                       (let total_dinucleotides = sum_list (dict_values counted)
                        in dict_comp
                             (\<lambda>item. case py_truediv (of_int (snd item)) (of_int total_dinucleotides) of
                                        Inl e \<Rightarrow> Inl e
                                      | Inr fraction \<Rightarrow> Inr (fst item, fraction))
                             counted))))"

section \<open>Palindromes: \<open>find_palindromes\<close>\<close>

text \<open>
  One entry of the result's \<open>palindromes\<close> list, \<open>{"pos": start, "length": n}\<close>, and
  the result object itself.
\<close>

record palindrome =
  pos :: int
  length_p :: int

record palindrome_stats =
  num_palindromes :: int
  palindromes :: "palindrome list"

text \<open>
  The inner function \<open>expand_frontier\<close> updates the result object of the enclosing
  call; here it takes the object and returns it updated. It is called with
  \<open>0 \<le> start \<le> end\<close> only, and \<open>sequence[start]\<close>, \<open>sequence[end]\<close> are read after
  the bounds have been tested. \<open>len(Counter(substring))\<close> is the number of distinct
  characters of the substring.
\<close>

function expand_frontier ::
  "string \<Rightarrow> int \<Rightarrow> int \<Rightarrow> int \<Rightarrow> int \<Rightarrow> palindrome_stats \<Rightarrow> palindrome_stats" where
  "expand_frontier sequence min_substring_len min_bases start end' stats =
     (if 0 \<le> start \<and> end' < int (length sequence)
         \<and> sequence ! nat start = sequence ! nat end' then
        (let substring = py_slice sequence start (end' + 1);
             stats' =
               (if int (length substring) > min_substring_len
                   \<and> int (length (remdups substring)) \<ge> min_bases
                then stats\<lparr>num_palindromes := num_palindromes stats + 1,
                           palindromes := palindromes stats
                             @ [\<lparr>pos = start, length_p = int (length substring)\<rparr>]\<rparr>
                else stats)
         in expand_frontier sequence min_substring_len min_bases (start - 1) (end' + 1) stats')
      else stats)"
  by pat_completeness auto
termination
  by (relation "measure (\<lambda>(sequence, min_substring_len, min_bases, start, end', stats). nat (start + 1))")
    auto

declare expand_frontier.simps [simp del]

definition find_palindromes :: "string \<Rightarrow> int \<Rightarrow> int \<Rightarrow> palindrome_stats" where
  "find_palindromes sequence min_substring_len min_bases =
     fold (\<lambda>i stats.
             expand_frontier sequence min_substring_len min_bases (int i) (int i + 1)
               (expand_frontier sequence min_substring_len min_bases (int i) (int i) stats))
       [0..<length sequence]
       \<lparr>num_palindromes = 0, palindromes = []\<rparr>"

section \<open>Reductions over stat records: \<open>find_max\<close>, \<open>find_min\<close>, \<open>reduce_avg\<close>\<close>

text \<open>
  The running extreme starts at \<open>float("-inf")\<close> or \<open>float("inf")\<close>; the field values
  are finite numbers.
\<close>

datatype extended = MinusInf | Fin real | PlusInf

fun ext_less :: "extended \<Rightarrow> extended \<Rightarrow> bool" where
  "ext_less MinusInf MinusInf = False"
| "ext_less MinusInf _ = True"
| "ext_less (Fin a) (Fin b) = (a < b)"
| "ext_less (Fin a) PlusInf = True"
| "ext_less _ _ = False"

type_synonym stat_record = "(string, real) dict"

definition find_max_step ::
  "stat_record list \<Rightarrow> string \<Rightarrow> nat \<times> stat_record
     \<Rightarrow> nat \<times> extended \<times> stat_record \<Rightarrow> error + nat \<times> extended \<times> stat_record" where
  "find_max_step stats field item state =
     (let i = fst item; stats_dict = snd item;
          max_index = fst state; max_value = fst (snd state); ret_dict = snd (snd state)
      in case dict_get stats_dict field of
           Inl e \<Rightarrow> Inl e
         | Inr v \<Rightarrow>
             if ext_less max_value (Fin v) then Inr (i, Fin v, stats ! i)
             else Inr (max_index, max_value, ret_dict))"

definition find_max :: "stat_record list \<Rightarrow> string \<Rightarrow> error + nat \<times> stat_record" where
  "find_max stats field =
     (case stats of
        [] \<Rightarrow> Inl IndexError
      | first # _ \<Rightarrow>
          (case for_each (find_max_step stats field) (enumerate 0 stats) (0, MinusInf, first) of
             Inl e \<Rightarrow> Inl e
           | Inr state \<Rightarrow> Inr (fst state, snd (snd state))))"

definition find_min_step ::
  "stat_record list \<Rightarrow> string \<Rightarrow> nat \<times> stat_record
     \<Rightarrow> nat \<times> extended \<times> stat_record \<Rightarrow> error + nat \<times> extended \<times> stat_record" where
  "find_min_step stats field item state =
     (let i = fst item; stats_dict = snd item;
          min_index = fst state; min_value = fst (snd state); ret_dict = snd (snd state)
      in case dict_get stats_dict field of
           Inl e \<Rightarrow> Inl e
         | Inr v \<Rightarrow>
             if ext_less (Fin v) min_value then Inr (i, Fin v, stats ! i)
             else Inr (min_index, min_value, ret_dict))"

definition find_min :: "stat_record list \<Rightarrow> string \<Rightarrow> error + nat \<times> stat_record" where
  "find_min stats field =
     (case stats of
        [] \<Rightarrow> Inl IndexError
      | first # _ \<Rightarrow>
          (case for_each (find_min_step stats field) (enumerate 0 stats) (0, PlusInf, first) of
             Inl e \<Rightarrow> Inl e
           | Inr state \<Rightarrow> Inr (fst state, snd (snd state))))"

text \<open>
  \<open>reduce_avg\<close>: the accumulator has the fields of the first record, each record's
  fields are added to it (\<open>aggregated[key] += value\<close>), and every sum is divided by
  the number of records.
\<close>

definition add_record :: "stat_record \<Rightarrow> stat_record \<Rightarrow> error + stat_record" where
  "add_record stats_dict aggregated =
     for_each (\<lambda>item. dict_add (fst item) (snd item)) stats_dict aggregated"

definition reduce_avg :: "stat_record list \<Rightarrow> error + stat_record" where
  "reduce_avg stats =
     (case stats of
        [] \<Rightarrow> Inl IndexError
      | first # _ \<Rightarrow>
          (case dict_comp (\<lambda>item. Inr (fst item, 0)) first of
             Inl e \<Rightarrow> Inl e
           | Inr zeros \<Rightarrow>
               (case for_each add_record stats zeros of
                  Inl e \<Rightarrow> Inl e
                | Inr aggregated \<Rightarrow>
                    dict_comp
                      (\<lambda>item. case py_truediv (snd item) (real (length stats)) of
                                 Inl e \<Rightarrow> Inl e
                               | Inr val \<Rightarrow> Inr (fst item, val))
                      aggregated)))"

section \<open>Invariants used in the proofs\<close>

text \<open>
  What the detector guarantees of each emitted record, and of the result object: the
  record lies within the sequence, its substring is its own reverse, is longer than
  \<open>min_substring_len\<close> and has at least \<open>min_bases\<close> distinct characters; the counter
  equals the number of records. Used to state the loop invariant.
\<close>

definition palindrome_ok :: "string \<Rightarrow> int \<Rightarrow> int \<Rightarrow> palindrome \<Rightarrow> bool" where
  "palindrome_ok sequence min_substring_len min_bases p =
     (0 \<le> pos p \<and> 0 \<le> length_p p \<and> pos p + length_p p \<le> int (length sequence)
      \<and> (let s = take (nat (length_p p)) (drop (nat (pos p)) sequence)
         in s = rev s \<and> min_substring_len < length_p p \<and> min_bases \<le> int (card (set s))))"

definition stats_ok :: "string \<Rightarrow> int \<Rightarrow> int \<Rightarrow> palindrome_stats \<Rightarrow> bool" where
  "stats_ok sequence min_substring_len min_bases stats =
     (num_palindromes stats = int (length (palindromes stats))
      \<and> list_all (palindrome_ok sequence min_substring_len min_bases) (palindromes stats))"

text \<open>
  The loop invariants of \<open>find_max\<close> and \<open>find_min\<close> after \<open>n\<close> records, where
  \<open>val j\<close> is the value of the field in record \<open>j\<close>: before the first record the state
  is the initial one; afterwards it holds the first index of the extreme value among
  the records read, that value, and the record at that index.
\<close>

definition max_inv ::
  "stat_record list \<Rightarrow> (nat \<Rightarrow> real) \<Rightarrow> nat \<Rightarrow> nat \<times> extended \<times> stat_record \<Rightarrow> bool" where
  "max_inv stats val n state =
     (let max_index = fst state; max_value = fst (snd state); ret_dict = snd (snd state)
      in ret_dict = stats ! max_index
         \<and> (if n = 0 then max_index = 0 \<and> max_value = MinusInf
            else max_index < n \<and> max_value = Fin (val max_index)
                 \<and> (\<forall>j < n. val j \<le> val max_index)
                 \<and> (\<forall>j < max_index. val j < val max_index)))"

definition min_inv ::
  "stat_record list \<Rightarrow> (nat \<Rightarrow> real) \<Rightarrow> nat \<Rightarrow> nat \<times> extended \<times> stat_record \<Rightarrow> bool" where
  "min_inv stats val n state =
     (let min_index = fst state; min_value = fst (snd state); ret_dict = snd (snd state)
      in ret_dict = stats ! min_index
         \<and> (if n = 0 then min_index = 0 \<and> min_value = PlusInf
            else min_index < n \<and> min_value = Fin (val min_index)
                 \<and> (\<forall>j < n. val min_index \<le> val j)
                 \<and> (\<forall>j < min_index. val min_index < val j)))"

section \<open>Facts about slices and the window scanner\<close>

lemma py_slice_window:
  assumes "0 \<le> w"
  shows "py_slice xs (int i) (int i + w) = take (nat w) (drop i xs)"
proof (cases "i \<le> length xs")
  case True
  have "take (nat (min (int i + w) (int (length xs)) - int i)) (drop i xs) = take (nat w) (drop i xs)"
  proof (cases "int i + w \<le> int (length xs)")
    case True
    then show ?thesis by (simp add: min_def)
  next
    case False
    then have "length (drop i xs) \<le> nat w" "length (drop i xs) \<le> nat (int (length xs) - int i)"
      by auto
    then show ?thesis using False by (simp add: min_def)
  qed
  then show ?thesis using True assms by (simp add: py_slice_def Let_def min_def)
next
  case False
  then show ?thesis using assms by (simp add: py_slice_def Let_def min_def)
qed

lemma py_slice_window_length:
  assumes "0 \<le> w"
  shows "int (length (py_slice xs (int i) (int i + w))) = w \<longleftrightarrow> w = 0 \<or> i + nat w \<le> length xs"
  using assms by (auto simp: py_slice_window min_def)

lemma substrings_from_windows:
  assumes "1 \<le> win_len" "1 \<le> hop_len"
  shows "\<exists>m. substrings_from seq win_len hop_len i =
            map (\<lambda>j. take (nat win_len) (drop (i + j * nat hop_len) seq)) [0..<m]
          \<and> (\<forall>j. j < m \<longleftrightarrow> i + j * nat hop_len + nat win_len \<le> length seq)"
  using assms
proof (induction seq win_len hop_len i rule: substrings_from.induct)
  case (1 seq win_len hop_len i)
  let ?w = "nat win_len" and ?h = "nat hop_len"
  let ?win = "\<lambda>i j. take ?w (drop (i + j * ?h) seq)"
  from 1(2,3) have pos: "0 \<le> win_len" "win_len \<noteq> 0" "0 < hop_len" by auto
  show ?case
  proof (cases "i + ?w \<le> length seq")
    case False
    then have "substrings_from seq win_len hop_len i = []"
      using pos py_slice_window_length[of win_len seq i]
      by (subst substrings_from.simps) (auto simp: Let_def)
    moreover have "\<forall>j. \<not> i + j * ?h + ?w \<le> length seq" using False by auto
    ultimately show ?thesis by (intro exI[of _ 0]) simp
  next
    case True
    then have lt: "i < length seq" using pos by auto
    have len: "\<not> int (length (py_slice seq (int i) (int i + win_len))) \<noteq> win_len"
      using True pos py_slice_window_length[of win_len seq i] by simp
    from "1.IH"[OF _ refl len 1(2,3)] lt pos obtain m where
      m: "substrings_from seq win_len hop_len (i + ?h) = map (?win (i + ?h)) [0..<m]"
         "\<forall>j. j < m \<longleftrightarrow> i + ?h + j * ?h + ?w \<le> length seq"
      by auto
    have "substrings_from seq win_len hop_len i
            = take ?w (drop i seq) # substrings_from seq win_len hop_len (i + ?h)"
      using lt pos len py_slice_window[of win_len seq i]
      by (subst substrings_from.simps) (simp add: Let_def)
    also have "\<dots> = map (?win i) [0..<Suc m]"
      unfolding m(1) by (simp add: map_upt_Suc add.assoc del: upt_Suc)
    finally have eq: "substrings_from seq win_len hop_len i = map (?win i) [0..<Suc m]" .
    have "\<forall>j. j < Suc m \<longleftrightarrow> i + j * ?h + ?w \<le> length seq"
    proof
      fix j
      show "j < Suc m \<longleftrightarrow> i + j * ?h + ?w \<le> length seq"
      proof (cases j)
        case 0
        then show ?thesis using True by simp
      next
        case (Suc j')
        then show ?thesis using m(2)[rule_format, of j'] by (simp add: add.assoc add.commute)
      qed
    qed
    with eq show ?thesis by blast
  qed
qed

section \<open>Facts about dicts and the counting loops\<close>

lemma keys_Nil [simp]: "keys [] = []"
  by (simp add: keys_def)

lemma dict_values_Nil [simp]: "dict_values [] = []"
  by (simp add: dict_values_def)


lemma keys_dict_set: "keys (dict_set k v d) = insert_key k (keys d)"
  by (induction d) (auto simp: keys_def insert_key_def)

lemma map_of_dict_set: "map_of (dict_set k v d) = (map_of d)(k \<mapsto> v)"
  by (induction d) (auto simp: fun_eq_iff)

lemma dict_set_twice: "dict_set k v (dict_set k u d) = dict_set k v d"
  by (induction d) auto

lemma set_dict_set: "set (dict_set k v d) \<subseteq> insert (k, v) (set d)"
  by (induction d) auto

lemma map_of_keys: "map_of d k = None \<longleftrightarrow> k \<notin> set (keys d)"
  by (simp add: keys_def map_of_eq_None_iff)

lemma incr_step:
  "dict_add k v (if k \<notin> set (keys d) then dict_set k 0 d else d) = Inr (dict_incr k v d)"
proof (cases "map_of d k")
  case None
  then have "k \<notin> set (keys d)" by (simp add: map_of_keys)
  then show ?thesis using None
    by (simp add: dict_add_def dict_get_def map_of_dict_set dict_set_twice dict_incr_def value_or_0_def)
next
  case (Some c)
  then have "k \<in> set (keys d)" using map_of_keys[of d k] by auto
  then show ?thesis using Some
    by (simp add: dict_add_def dict_get_def dict_incr_def value_or_0_def)
qed

lemma count_k_mer_incr: "count_k_mer w d = Inr (dict_incr w 1 d)"
  by (simp add: count_k_mer_def Let_def incr_step)

lemma aggregate_k_mer_incr: "aggregate_k_mer kv d = Inr (dict_incr (fst kv) (snd kv) d)"
  by (simp add: aggregate_k_mer_def Let_def incr_step)

lemma for_each_pure:
  assumes "\<And>x s. body x s = Inr (g x s)"
  shows "for_each body xs s = Inr (fold g xs s)"
  by (induction xs arbitrary: s) (simp_all add: assms)

lemma keys_dict_incr: "keys (dict_incr k v d) = insert_key k (keys d)"
  by (simp add: dict_incr_def keys_dict_set)

lemma value_or_0_dict_incr:
  "value_or_0 (dict_incr k v d) x = (if x = k then value_or_0 d k + v else value_or_0 d x)"
  by (simp add: dict_incr_def value_or_0_def map_of_dict_set)

lemma sum_values_dict_incr:
  "sum_list (dict_values (dict_incr k v d)) = sum_list (dict_values d) + v"
  by (induction d) (auto simp: dict_incr_def dict_values_def value_or_0_def)

lemma fold_incr_keys:
  "keys (fold (\<lambda>kv. dict_incr (fst kv) (snd kv)) items d) = fold insert_key (map fst items) (keys d)"
  by (induction items arbitrary: d) (simp_all add: keys_dict_incr)

lemma fold_incr_value_or_0:
  "value_or_0 (fold (\<lambda>kv. dict_incr (fst kv) (snd kv)) items d) x
     = value_or_0 d x + sum_list (map snd (filter (\<lambda>kv. fst kv = x) items))"
  by (induction items arbitrary: d) (auto simp: value_or_0_dict_incr)

lemma fold_incr_sum:
  "sum_list (dict_values (fold (\<lambda>kv. dict_incr (fst kv) (snd kv)) items d))
     = sum_list (dict_values d) + sum_list (map snd items)"
  by (induction items arbitrary: d) (simp_all add: sum_values_dict_incr)

lemma set_fold_insert_key: "set (fold insert_key xs ks) = set ks \<union> set xs"
  by (induction xs arbitrary: ks) (auto simp: insert_key_def)

lemma distinct_fold_insert_key: "distinct ks \<Longrightarrow> distinct (fold insert_key xs ks)"
  by (induction xs arbitrary: ks) (auto simp: insert_key_def)

lemma remdups_drop_known: "x \<in> set bs \<Longrightarrow> remdups (as @ x # bs) = remdups (as @ bs)"
  by (induction as) auto

lemma fold_insert_key_remdups:
  "distinct ks \<Longrightarrow> fold insert_key xs ks = rev (remdups (rev (ks @ xs)))"
proof (induction xs arbitrary: ks)
  case Nil
  then show ?case by (simp add: distinct_remdups_id)
next
  case (Cons x xs)
  show ?case
  proof (cases "x \<in> set ks")
    case True
    have "remdups (rev xs @ x # rev ks) = remdups (rev xs @ rev ks)"
      by (rule remdups_drop_known) (simp add: True)
    then show ?thesis using True Cons.IH[OF Cons.prems] by (simp add: insert_key_def)
  next
    case False
    then have "distinct (ks @ [x])" using Cons.prems by simp
    from Cons.IH[OF this] show ?thesis using False by (simp add: insert_key_def)
  qed
qed

text \<open>The keys of a dict filled from empty are the stored keys in first-met order.\<close>

lemma first_seen_fold: "first_seen xs = fold insert_key xs []"
  by (simp add: first_seen_def fold_insert_key_remdups)

lemma value_or_0_nonneg:
  assumes "\<forall>kv \<in> set d. (1::int) \<le> snd kv"
  shows "0 \<le> value_or_0 d k"
proof (cases "map_of d k")
  case None
  then show ?thesis by (simp add: value_or_0_def)
next
  case (Some c)
  then have "(k, c) \<in> set d" by (rule map_of_SomeD)
  with assms have "1 \<le> c" by force
  with Some show ?thesis by (simp add: value_or_0_def)
qed

lemma dict_incr_positive:
  assumes "\<forall>kv \<in> set d. 1 \<le> snd kv" "1 \<le> v"
  shows "\<forall>kv \<in> set (dict_incr k v d). 1 \<le> snd kv"
proof
  fix kv assume "kv \<in> set (dict_incr k v d)"
  then have "kv = (k, value_or_0 d k + v) \<or> kv \<in> set d"
    using set_dict_set[of k "value_or_0 d k + v" d] by (auto simp: dict_incr_def)
  then show "1 \<le> snd kv" using assms value_or_0_nonneg[OF assms(1), of k] by auto
qed

lemma fold_incr_positive:
  assumes "\<forall>kv \<in> set d. 1 \<le> snd kv" "\<forall>kv \<in> set items. 1 \<le> snd kv"
  shows "\<forall>kv \<in> set (fold (\<lambda>kv. dict_incr (fst kv) (snd kv)) items d). 1 \<le> snd kv"
  using assms
proof (induction items arbitrary: d)
  case Nil
  then show ?case by simp
next
  case (Cons a items)
  have "\<forall>kv \<in> set (dict_incr (fst a) (snd a) d). 1 \<le> snd kv"
    using Cons.prems by (intro dict_incr_positive) auto
  moreover have "\<forall>kv \<in> set items. 1 \<le> snd kv"
    using Cons.prems(2) by simp
  ultimately show ?case using Cons.IH by simp
qed

text \<open>\<open>find_k_mers\<close> never raises: it is a fold of \<open>dict_incr\<close> over the windows.\<close>

lemma find_k_mers_fold:
  "find_k_mers sequence k
     = Inr (fold (\<lambda>kv. dict_incr (fst kv) (snd kv))
              (map (\<lambda>w. (w, 1)) (substrings_from sequence k 1 0)) [])"
proof -
  have "for_each count_k_mer ws d = Inr (fold (\<lambda>w. dict_incr w 1) ws d)" for ws d
    by (rule for_each_pure) (rule count_k_mer_incr)
  then show ?thesis
    by (simp add: find_k_mers_def substrings_def fold_map comp_def)
qed

lemma k_mer_windows:
  assumes "1 \<le> k"
  shows "\<exists>m. substrings_from sequence k 1 0 = map (\<lambda>j. take (nat k) (drop j sequence)) [0..<m]
           \<and> (\<forall>j. j < m \<longleftrightarrow> j + nat k \<le> length sequence)"
  using substrings_from_windows[OF assms, of 1 sequence 0] by simp

section \<open>Facts about palindromes\<close>

lemma py_slice_nat: "py_slice xs (int a) (int b) = take (b - a) (drop a xs)"
proof (cases "a \<le> length xs")
  case True
  have "nat (min (int b) (int (length xs)) - int a) = min (b - a) (length xs - a)"
    by (auto simp: min_def)
  moreover have "take (min (b - a) (length xs - a)) (drop a xs) = take (b - a) (drop a xs)"
    by (auto simp: min_def)
  ultimately show ?thesis using True by (simp add: py_slice_def Let_def min_def)
next
  case False
  then show ?thesis by (simp add: py_slice_def Let_def min_def)
qed

lemma palindrome_extend:
  assumes "a \<le> b" "b < length xs" "xs ! a = xs ! b"
    and inner: "take (b - Suc a) (drop (Suc a) xs) = rev (take (b - Suc a) (drop (Suc a) xs))"
  shows "take (Suc b - a) (drop a xs) = rev (take (Suc b - a) (drop a xs))"
proof (cases "a = b")
  case True
  have "drop b xs = xs ! b # drop (Suc b) xs"
    using assms(2) by (simp add: Cons_nth_drop_Suc)
  then show ?thesis using True by simp
next
  case False
  with assms(1) have lt: "a < b" by simp
  let ?inner = "take (b - Suc a) (drop (Suc a) xs)"
  have d: "drop a xs = xs ! a # drop (Suc a) xs"
    using lt assms(2) by (simp add: Cons_nth_drop_Suc)
  have "Suc b - a = Suc (Suc (b - Suc a))" using lt by simp
  then have "take (Suc b - a) (drop a xs) = xs ! a # take (Suc (b - Suc a)) (drop (Suc a) xs)"
    by (simp add: d)
  also have "take (Suc (b - Suc a)) (drop (Suc a) xs) = ?inner @ [drop (Suc a) xs ! (b - Suc a)]"
    using lt assms(2) by (intro take_Suc_conv_app_nth) simp
  also have "drop (Suc a) xs ! (b - Suc a) = xs ! b"
    using lt assms(2) by simp
  finally have s: "take (Suc b - a) (drop a xs) = xs ! a # ?inner @ [xs ! b]" .
  show ?thesis unfolding s using inner assms(3) by simp
qed

section \<open>The invariant of the palindrome detector\<close>

lemma expand_frontier_ok:
  assumes "stats_ok sequence msl mb stats" "- 1 \<le> start" "start \<le> end'"
    and "py_slice sequence (start + 1) end' = rev (py_slice sequence (start + 1) end')"
  shows "stats_ok sequence msl mb (expand_frontier sequence msl mb start end' stats)"
  using assms
proof (induction sequence msl mb start end' stats rule: expand_frontier.induct)
  case (1 sequence msl mb start end' stats)
  let ?cond = "0 \<le> start \<and> end' < int (length sequence)
                 \<and> sequence ! nat start = sequence ! nat end'"
  show ?case
  proof (cases ?cond)
    case False
    then show ?thesis using "1.prems"(1) by (subst expand_frontier.simps) auto
  next
    case True
    define a b where "a = nat start" and "b = nat end'"
    have ab: "start = int a" "end' = int b" "a \<le> b" "b < length sequence"
      "sequence ! a = sequence ! b"
      using True "1.prems"(3) by (auto simp: a_def b_def)
    let ?sub = "py_slice sequence start (end' + 1)"
    have sub: "?sub = take (Suc b - a) (drop a sequence)"
      using py_slice_nat[of sequence a "Suc b"] by (simp add: ab add.commute)
    have inner: "take (b - Suc a) (drop (Suc a) sequence)
                   = rev (take (b - Suc a) (drop (Suc a) sequence))"
      using "1.prems"(4) py_slice_nat[of sequence "Suc a" b] by (simp add: ab add.commute)
    have pal: "?sub = rev ?sub"
      unfolding sub using ab(3,4,5) inner by (rule palindrome_extend)
    have len: "int (length ?sub) = end' + 1 - start"
      unfolding sub using ab by auto
    let ?stats' = "if int (length ?sub) > msl \<and> int (length (remdups ?sub)) \<ge> mb
                   then stats\<lparr>num_palindromes := num_palindromes stats + 1,
                              palindromes := palindromes stats
                                @ [\<lparr>pos = start, length_p = int (length ?sub)\<rparr>]\<rparr>
                   else stats"
    have new_ok: "palindrome_ok sequence msl mb \<lparr>pos = start, length_p = int (length ?sub)\<rparr>"
      if "int (length ?sub) > msl" "int (length (remdups ?sub)) \<ge> mb"
    proof -
      have t: "take (length ?sub) (drop (nat start) sequence) = ?sub"
        unfolding sub using ab by (simp add: min_def)
      have r: "0 \<le> start" "start + int (length ?sub) \<le> int (length sequence)"
        using True len by auto
      have c: "mb \<le> int (card (set ?sub))"
        using that(2) by (simp add: length_remdups_card_conv)
      show ?thesis
        using that(1) pal t r c by (simp add: palindrome_ok_def Let_def)
    qed
    have ok': "stats_ok sequence msl mb ?stats'"
      using "1.prems"(1) new_ok by (auto simp: stats_ok_def)
    have "stats_ok sequence msl mb (expand_frontier sequence msl mb (start - 1) (end' + 1) ?stats')"
    proof (rule "1.IH"[OF True refl refl ok'])
      show "- 1 \<le> start - 1" using True by simp
      show "start - 1 \<le> end' + 1" using "1.prems"(3) by simp
      show "py_slice sequence (start - 1 + 1) (end' + 1)
              = rev (py_slice sequence (start - 1 + 1) (end' + 1))"
        using pal by simp
    qed
    then show ?thesis using True by (subst expand_frontier.simps) (simp add: Let_def)
  qed
qed

lemma py_slice_empty: "py_slice xs (int i + 1) (int i) = []" "py_slice xs (int i + 1) (int i + 1) = []"
  using py_slice_nat[of xs "Suc i" i] py_slice_nat[of xs "Suc i" "Suc i"] by (simp_all add: add.commute)

lemma fold_preserves:
  assumes "\<And>x s. P s \<Longrightarrow> P (f x s)" "P s"
  shows "P (fold f xs s)"
  using assms(2) by (induction xs arbitrary: s) (simp_all add: assms(1))

lemma find_palindromes_ok:
  "stats_ok sequence msl mb (find_palindromes sequence msl mb)"
  unfolding find_palindromes_def
proof (rule fold_preserves)
  show "stats_ok sequence msl mb \<lparr>num_palindromes = 0, palindromes = []\<rparr>"
    by (simp add: stats_ok_def)
next
  fix i :: nat and s
  assume s: "stats_ok sequence msl mb s"
  have "stats_ok sequence msl mb (expand_frontier sequence msl mb (int i) (int i) s)"
    using s by (rule expand_frontier_ok) (simp_all add: py_slice_empty)
  then show "stats_ok sequence msl mb
               (expand_frontier sequence msl mb (int i) (int i + 1)
                  (expand_frontier sequence msl mb (int i) (int i) s))"
    by (rule expand_frontier_ok) (simp_all add: py_slice_empty)
qed

section \<open>The loops of \<open>find_max\<close> and \<open>find_min\<close>\<close>

lemma find_max_step_inv:
  assumes "max_inv stats val n state" "dict_get (stats ! n) field = Inr (val n)"
  shows "\<exists>state'. find_max_step stats field (n, stats ! n) state = Inr state'
                  \<and> max_inv stats val (Suc n) state'"
proof (cases "n = 0")
  case True
  then show ?thesis using assms
    by (simp add: find_max_step_def max_inv_def Let_def)
next
  case False
  obtain mi mv rd where st: "state = (mi, mv, rd)" by (cases state)
  from assms(1) False st have inv: "rd = stats ! mi" "mi < n" "mv = Fin (val mi)"
    "\<forall>j < n. val j \<le> val mi" "\<forall>j < mi. val j < val mi"
    by (simp_all add: max_inv_def Let_def)
  show ?thesis
  proof (cases "val mi < val n")
    case True
    have "\<forall>j < Suc n. val j \<le> val n"
      using inv(4) True by (auto simp: less_Suc_eq) 
    moreover have "\<forall>j < n. val j < val n"
      using inv(4) True by force
    ultimately show ?thesis using True st inv(3) assms(2)
      by (simp add: find_max_step_def max_inv_def Let_def)
  next
    case False
    then have "\<forall>j < Suc n. val j \<le> val mi"
      using inv(4) by (auto simp: less_Suc_eq)
    then show ?thesis using False st inv assms(2)
      by (simp add: find_max_step_def max_inv_def Let_def)
  qed
qed

lemma find_max_loop:
  assumes "max_inv stats val n state" "n \<le> length stats" "xs = drop n stats"
    and "\<forall>j < length stats. dict_get (stats ! j) field = Inr (val j)"
  shows "\<exists>state'. for_each (find_max_step stats field) (enumerate n xs) state = Inr state'
                  \<and> max_inv stats val (length stats) state'"
  using assms(1,2,3)
proof (induction xs arbitrary: n state)
  case Nil
  then have "n = length stats" by simp
  with Nil show ?case by simp
next
  case (Cons x xs)
  from Cons.prems(3) have n: "n < length stats"
    by (metis drop_all linorder_not_less list.discI)
  then have x: "x = stats ! n" "xs = drop (Suc n) stats"
    using Cons.prems(3) by (simp_all add: Cons_nth_drop_Suc[symmetric])
  from find_max_step_inv[OF Cons.prems(1), of field] assms(4) n obtain state' where
    s: "find_max_step stats field (n, stats ! n) state = Inr state'"
       "max_inv stats val (Suc n) state'"
    by auto
  from Cons.IH[OF s(2) _ x(2)] n obtain state'' where
    "for_each (find_max_step stats field) (enumerate (Suc n) xs) state' = Inr state''"
    "max_inv stats val (length stats) state''"
    by auto
  then show ?case using s(1) x(1) by simp
qed

lemma find_min_step_inv:
  assumes "min_inv stats val n state" "dict_get (stats ! n) field = Inr (val n)"
  shows "\<exists>state'. find_min_step stats field (n, stats ! n) state = Inr state'
                  \<and> min_inv stats val (Suc n) state'"
proof (cases "n = 0")
  case True
  then show ?thesis using assms
    by (simp add: find_min_step_def min_inv_def Let_def)
next
  case False
  obtain mi mv rd where st: "state = (mi, mv, rd)" by (cases state)
  from assms(1) False st have inv: "rd = stats ! mi" "mi < n" "mv = Fin (val mi)"
    "\<forall>j < n. val mi \<le> val j" "\<forall>j < mi. val mi < val j"
    by (simp_all add: min_inv_def Let_def)
  show ?thesis
  proof (cases "val n < val mi")
    case True
    have "\<forall>j < Suc n. val n \<le> val j"
      using inv(4) True by (auto simp: less_Suc_eq) 
    moreover have "\<forall>j < n. val n < val j"
      using inv(4) True by force
    ultimately show ?thesis using True st inv(3) assms(2)
      by (simp add: find_min_step_def min_inv_def Let_def)
  next
    case False
    then have "\<forall>j < Suc n. val mi \<le> val j"
      using inv(4) by (auto simp: less_Suc_eq)
    then show ?thesis using False st inv assms(2)
      by (simp add: find_min_step_def min_inv_def Let_def)
  qed
qed

lemma find_min_loop:
  assumes "min_inv stats val n state" "n \<le> length stats" "xs = drop n stats"
    and "\<forall>j < length stats. dict_get (stats ! j) field = Inr (val j)"
  shows "\<exists>state'. for_each (find_min_step stats field) (enumerate n xs) state = Inr state'
                  \<and> min_inv stats val (length stats) state'"
  using assms(1,2,3)
proof (induction xs arbitrary: n state)
  case Nil
  then have "n = length stats" by simp
  with Nil show ?case by simp
next
  case (Cons x xs)
  from Cons.prems(3) have n: "n < length stats"
    by (metis drop_all linorder_not_less list.discI)
  then have x: "x = stats ! n" "xs = drop (Suc n) stats"
    using Cons.prems(3) by (simp_all add: Cons_nth_drop_Suc[symmetric])
  from find_min_step_inv[OF Cons.prems(1), of field] assms(4) n obtain state' where
    s: "find_min_step stats field (n, stats ! n) state = Inr state'"
       "min_inv stats val (Suc n) state'"
    by auto
  from Cons.IH[OF s(2) _ x(2)] n obtain state'' where
    "for_each (find_min_step stats field) (enumerate (Suc n) xs) state' = Inr state''"
    "min_inv stats val (length stats) state''"
    by auto
  then show ?case using s(1) x(1) by simp
qed

lemma schema_field_value:
  assumes "\<forall>r \<in> set stats. set (keys r) = schema" "field \<in> schema" "j < length stats"
  shows "dict_get (stats ! j) field
           = Inr (case map_of (stats ! j) field of Some v \<Rightarrow> v | None \<Rightarrow> 0)"
proof -
  have "field \<in> set (keys (stats ! j))" using assms by simp
  then have "map_of (stats ! j) field \<noteq> None" by (simp add: map_of_keys)
  then show ?thesis by (auto simp: dict_get_def)
qed

section \<open>Facts about \<open>reduce_avg\<close>\<close>

lemma for_each_pure_on:
  assumes "\<And>x s. x \<in> set xs \<Longrightarrow> body x s = Inr (g x s)"
  shows "for_each body xs s = Inr (fold g xs s)"
  using assms by (induction xs arbitrary: s) simp_all

lemma dict_set_fresh: "k \<notin> set (keys d) \<Longrightarrow> dict_set k v d = d @ [(k, v)]"
  by (induction d) (auto simp: keys_def)

lemma fold_dict_set_distinct:
  assumes "distinct (keys xs)" "set (keys d) \<inter> set (keys xs) = {}"
  shows "fold (\<lambda>item. dict_set (fst item) (h item)) xs d = d @ map (\<lambda>item. (fst item, h item)) xs"
  using assms
proof (induction xs arbitrary: d)
  case Nil
  then show ?case by simp
next
  case (Cons x xs)
  from Cons.prems have fresh: "fst x \<notin> set (keys d)" by (auto simp: keys_def)
  have "distinct (keys xs)" using Cons.prems(1) by (simp add: keys_def)
  moreover have "set (keys (d @ [(fst x, h x)])) \<inter> set (keys xs) = {}"
    using Cons.prems by (auto simp: keys_def)
  ultimately have "fold (\<lambda>item. dict_set (fst item) (h item)) xs (d @ [(fst x, h x)])
                     = (d @ [(fst x, h x)]) @ map (\<lambda>item. (fst item, h item)) xs"
    by (rule Cons.IH)
  then show ?case by (simp add: dict_set_fresh[OF fresh])
qed

lemma dict_comp_distinct:
  assumes "distinct (keys xs)" "\<And>item. item \<in> set xs \<Longrightarrow> entry item = Inr (fst item, h item)"
  shows "dict_comp entry xs = Inr (map (\<lambda>item. (fst item, h item)) xs)"
proof -
  have "dict_comp entry xs = Inr (fold (\<lambda>item. dict_set (fst item) (h item)) xs [])"
    unfolding dict_comp_def by (rule for_each_pure_on) (simp add: assms(2))
  then show ?thesis
    using fold_dict_set_distinct[OF assms(1), of "[]" h] by simp
qed

lemma dict_add_present:
  fixes d :: "('k, 'v::monoid_add) dict"
  assumes "k \<in> set (keys d)"
  shows "\<exists>d'. dict_add k v d = Inr d' \<and> keys d' = keys d
              \<and> (\<forall>x. value_or_0 d' x = value_or_0 d x + (if x = k then v else 0))"
proof -
  from assms obtain c where c: "map_of d k = Some c"
    using map_of_keys[of d k] by auto
  have "keys (dict_set k (c + v) d) = keys d"
    using assms by (simp add: keys_dict_set insert_key_def)
  moreover have "\<forall>x. value_or_0 (dict_set k (c + v) d) x = value_or_0 d x + (if x = k then v else 0)"
    using c by (simp add: value_or_0_def map_of_dict_set)
  ultimately show ?thesis using c by (simp add: dict_add_def dict_get_def)
qed

lemma dict_add_absent: "k \<notin> set (keys d) \<Longrightarrow> dict_add k v d = Inl KeyError"
  using map_of_keys[of d k] by (simp add: dict_add_def dict_get_def)

lemma add_record_ok:
  fixes aggregated :: stat_record
  assumes "set (keys stats_dict) \<subseteq> set (keys aggregated)"
  shows "\<exists>a'. add_record stats_dict aggregated = Inr a' \<and> keys a' = keys aggregated
              \<and> (\<forall>x. value_or_0 a' x = value_or_0 aggregated x
                          + sum_list (map snd (filter (\<lambda>kv. fst kv = x) stats_dict)))"
  using assms
proof (induction stats_dict arbitrary: aggregated)
  case Nil
  then show ?case by (simp add: add_record_def)
next
  case (Cons item stats_dict)
  from Cons.prems have "fst item \<in> set (keys aggregated)" by (simp add: keys_def)
  from dict_add_present[OF this, of "snd item"] obtain d' where
    d': "dict_add (fst item) (snd item) aggregated = Inr d'" "keys d' = keys aggregated"
        "\<forall>x. value_or_0 d' x = value_or_0 aggregated x + (if x = fst item then snd item else 0)"
    by auto
  have "set (keys stats_dict) \<subseteq> set (keys d')" using Cons.prems d'(2) by (simp add: keys_def)
  from Cons.IH[OF this] obtain a' where
    a': "add_record stats_dict d' = Inr a'" "keys a' = keys d'"
        "\<forall>x. value_or_0 a' x = value_or_0 d' x
                 + sum_list (map snd (filter (\<lambda>kv. fst kv = x) stats_dict))"
    by auto
  have "add_record (item # stats_dict) aggregated = Inr a'"
    using d'(1) a'(1) by (simp add: add_record_def)
  moreover have "\<forall>x. value_or_0 a' x = value_or_0 aggregated x
                        + sum_list (map snd (filter (\<lambda>kv. fst kv = x) (item # stats_dict)))"
    using a'(3) d'(3) by simp
  ultimately show ?case using a'(2) d'(2) by simp
qed

lemma add_record_fail:
  fixes aggregated :: stat_record
  assumes "\<not> set (keys stats_dict) \<subseteq> set (keys aggregated)"
  shows "add_record stats_dict aggregated = Inl KeyError"
  using assms
proof (induction stats_dict arbitrary: aggregated)
  case Nil
  then show ?case by (simp add: keys_def)
next
  case (Cons item stats_dict)
  show ?case
  proof (cases "fst item \<in> set (keys aggregated)")
    case False
    then show ?thesis by (simp add: add_record_def dict_add_absent)
  next
    case True
    from dict_add_present[OF this, of "snd item"] obtain d' where
      d': "dict_add (fst item) (snd item) aggregated = Inr d'" "keys d' = keys aggregated"
      by auto
    have "\<not> set (keys stats_dict) \<subseteq> set (keys d')"
      using Cons.prems True d'(2) by (auto simp: keys_def)
    from Cons.IH[OF this] show ?thesis using d'(1) by (simp add: add_record_def)
  qed
qed

lemma add_records_ok:
  fixes aggregated :: stat_record
  assumes "\<forall>r \<in> set stats. set (keys r) \<subseteq> set (keys aggregated)"
  shows "\<exists>a'. for_each add_record stats aggregated = Inr a' \<and> keys a' = keys aggregated
              \<and> (\<forall>x. value_or_0 a' x = value_or_0 aggregated x
                    + (\<Sum>r\<leftarrow>stats. sum_list (map snd (filter (\<lambda>kv. fst kv = x) r))))"
  using assms
proof (induction stats arbitrary: aggregated)
  case Nil
  then show ?case by simp
next
  case (Cons r stats)
  from Cons.prems have "set (keys r) \<subseteq> set (keys aggregated)" by simp
  from add_record_ok[OF this] obtain d' where
    d': "add_record r aggregated = Inr d'" "keys d' = keys aggregated"
        "\<forall>x. value_or_0 d' x = value_or_0 aggregated x
                 + sum_list (map snd (filter (\<lambda>kv. fst kv = x) r))"
    by auto
  have "\<forall>r \<in> set stats. set (keys r) \<subseteq> set (keys d')" using Cons.prems d'(2) by simp
  from Cons.IH[OF this] obtain a' where
    a': "for_each add_record stats d' = Inr a'" "keys a' = keys d'"
        "\<forall>x. value_or_0 a' x = value_or_0 d' x
                 + (\<Sum>r\<leftarrow>stats. sum_list (map snd (filter (\<lambda>kv. fst kv = x) r)))"
    by auto
  have "\<forall>x. value_or_0 a' x = value_or_0 aggregated x
               + (\<Sum>r\<leftarrow>r # stats. sum_list (map snd (filter (\<lambda>kv. fst kv = x) r)))"
    using a'(3) d'(3) by simp
  then show ?case using d'(1,2) a'(1,2) by simp
qed

lemma add_records_fail:
  fixes aggregated :: stat_record
  assumes "\<exists>r \<in> set stats. \<not> set (keys r) \<subseteq> set (keys aggregated)"
  shows "for_each add_record stats aggregated = Inl KeyError"
  using assms
proof (induction stats arbitrary: aggregated)
  case Nil
  then show ?case by simp
next
  case (Cons r stats)
  show ?case
  proof (cases "set (keys r) \<subseteq> set (keys aggregated)")
    case False
    then show ?thesis by (simp add: add_record_fail)
  next
    case True
    from add_record_ok[OF this] obtain d' where
      d': "add_record r aggregated = Inr d'" "keys d' = keys aggregated"
      by auto
    have "\<exists>r \<in> set stats. \<not> set (keys r) \<subseteq> set (keys d')"
      using Cons.prems True d'(2) by auto
    from Cons.IH[OF this] show ?thesis using d'(1) by simp
  qed
qed

lemma sum_key_distinct:
  assumes "distinct (keys r)"
  shows "sum_list (map snd (filter (\<lambda>kv. fst kv = x) r)) = value_or_0 r x"
  using assms
proof (induction r)
  case Nil
  then show ?case by (simp add: value_or_0_def)
next
  case (Cons kv r)
  show ?case
  proof (cases "fst kv = x")
    case True
    then have "x \<notin> fst ` set r" using Cons.prems by (auto simp: keys_def)
    then have "filter (\<lambda>kv. fst kv = x) r = []" by (auto simp: filter_empty_conv)
    then show ?thesis using True by (cases kv) (simp add: value_or_0_def)
  next
    case False
    then show ?thesis using Cons by (cases kv) (auto simp: value_or_0_def keys_def)
  qed
qed

lemma keys_Cons: "keys (x # xs) = fst x # keys xs"
  by (simp add: keys_def)

lemma fold_dict_set_keys:
  "keys (fold (\<lambda>item. dict_set (fst item) (h item)) xs d) = fold insert_key (keys xs) (keys d)"
  by (induction xs arbitrary: d) (simp_all add: keys_dict_set keys_Cons)

lemma map_of_map_values:
  "map_of (map (\<lambda>item. (fst item, h (snd item))) d) k = map_option h (map_of d k)"
  by (induction d) auto

lemma zeros_dict:
  "\<exists>zeros. dict_comp (\<lambda>item. Inr (fst item, 0::real)) (first :: stat_record) = Inr zeros
           \<and> set (keys zeros) = set (keys first)
           \<and> (distinct (keys first) \<longrightarrow> zeros = map (\<lambda>item. (fst item, 0)) first)"
proof -
  have "dict_comp (\<lambda>item. Inr (fst item, 0::real)) first
          = Inr (fold (\<lambda>item. dict_set (fst item) 0) first [])"
    unfolding dict_comp_def by (rule for_each_pure_on) simp
  moreover have "set (keys (fold (\<lambda>item. dict_set (fst item) (0::real)) first [])) = set (keys first)"
    by (simp add: fold_dict_set_keys set_fold_insert_key)
  moreover have "fold (\<lambda>item. dict_set (fst item) (0::real)) first [] = map (\<lambda>item. (fst item, 0)) first"
    if "distinct (keys first)"
    using fold_dict_set_distinct[OF that, of "[]" "\<lambda>item. 0::real"] by simp
  ultimately show ?thesis by simp
qed

lemma dict_get_map_values:
  assumes "k \<in> set (keys d)"
  shows "dict_get (map (\<lambda>item. (fst item, h (snd item))) d) k = Inr (h (value_or_0 d k))"
proof -
  from assms obtain c where c: "map_of d k = Some c"
    using map_of_keys[of d k] by auto
  have "map_of (map (\<lambda>item. (fst item, h (snd item))) d) k = Some (h c)"
    using c by (simp add: map_of_map_values)
  then show ?thesis using c by (simp add: dict_get_def value_or_0_def)
qed

section \<open>Facts about \<open>get_dinucleotide_freqs\<close>\<close>

lemma fold_count_keys: "keys (fold (\<lambda>w. dict_incr w 1) ws d) = fold insert_key ws (keys d)"
  by (induction ws arbitrary: d) (simp_all add: keys_dict_incr)

lemma fold_count_value:
  "value_or_0 (fold (\<lambda>w. dict_incr w 1) ws d) x = value_or_0 d x + int (count_list ws x)"
  by (induction ws arbitrary: d) (auto simp: value_or_0_dict_incr)

lemma fold_count_sum:
  "sum_list (dict_values (fold (\<lambda>w. dict_incr w 1) ws d)) = sum_list (dict_values d) + int (length ws)"
  by (induction ws arbitrary: d) (simp_all add: sum_values_dict_incr)

lemma fold_insert_key_known: "set xs \<subseteq> set ks \<Longrightarrow> fold insert_key xs ks = ks"
  by (induction xs) (simp_all add: insert_key_def)

lemma zero_counts:
  "\<exists>counts. dict_comp (\<lambda>d. Inr (d, 0::int)) ks = Inr counts
            \<and> keys counts = first_seen ks \<and> (\<forall>kv \<in> set counts. snd kv = 0)"
proof -
  let ?c = "\<lambda>d0. fold (\<lambda>d. dict_set d (0::int)) ks d0"
  have a: "dict_comp (\<lambda>d. Inr (d, 0::int)) ks = Inr (?c [])"
    unfolding dict_comp_def by (rule for_each_pure_on) simp
  have b: "keys (?c d0) = fold insert_key ks (keys d0)" for d0 :: "('a, int) dict"
    by (induction ks arbitrary: d0) (simp_all add: keys_dict_set)
  have c: "\<forall>kv \<in> set d0. snd kv = 0 \<Longrightarrow> \<forall>kv \<in> set (?c d0). snd kv = 0"
    for d0 :: "('a, int) dict"
  proof (induction ks arbitrary: d0)
    case Nil
    then show ?case by simp
  next
    case (Cons k ks)
    have "\<forall>kv \<in> set (dict_set k 0 d0). snd kv = 0"
      using set_dict_set[of k 0 d0] Cons.prems by auto
    from Cons.IH[OF this] show ?case by simp
  qed
  have "\<forall>kv \<in> set (?c []). snd kv = 0" by (rule c) simp
  then show ?thesis using a b[of "[]"] by (simp add: first_seen_fold)
qed

lemma count_dinucleotide_pure:
  "count_dinucleotide w d = Inr (if w \<in> set (keys d) then dict_incr w 1 d else d)"
proof (cases "w \<in> set (keys d)")
  case True
  then show ?thesis using incr_step[of w 1 d] by (simp add: count_dinucleotide_def)
next
  case False
  then show ?thesis by (simp add: count_dinucleotide_def)
qed

lemma count_dinucleotides_filter:
  "fold (\<lambda>w d. if w \<in> set (keys d) then dict_incr w 1 d else d) ws d
     = fold (\<lambda>w. dict_incr w 1) (filter (\<lambda>w. w \<in> set (keys d)) ws) d"
proof (induction ws arbitrary: d)
  case Nil
  then show ?case by simp
next
  case (Cons w ws)
  show ?case
  proof (cases "w \<in> set (keys d)")
    case True
    then have "keys (dict_incr w 1 d) = keys d" by (simp add: keys_dict_incr insert_key_def)
    then show ?thesis using True Cons.IH[of "dict_incr w 1 d"] by simp
  next
    case False
    then show ?thesis using Cons.IH[of d] by simp
  qed
qed

lemma sum_list_zeros: "\<forall>v \<in> set xs. v = (0::int) \<Longrightarrow> sum_list xs = 0"
  by (induction xs) auto

lemma value_all_zero:
  assumes "\<forall>kv \<in> set d. snd kv = (0::int)"
  shows "value_or_0 d x = 0" "sum_list (dict_values d) = 0"
proof -
  show "value_or_0 d x = 0"
  proof (cases "map_of d x")
    case None
    then show ?thesis by (simp add: value_or_0_def)
  next
    case (Some c)
    then have "(x, c) \<in> set d" by (rule map_of_SomeD)
    with assms have "c = 0" by force
    with Some show ?thesis by (simp add: value_or_0_def)
  qed
  have "\<forall>v \<in> set (dict_values d). v = 0" using assms by (simp add: dict_values_def)
  then show "sum_list (dict_values d) = 0" by (rule sum_list_zeros)
qed

lemma dict_comp_first_fails:
  assumes "entry x = Inl e"
  shows "dict_comp entry (x # xs) = Inl e"
  using assms by (simp add: dict_comp_def)

lemma valid_windows_count:
  "int (count_list (filter (\<lambda>w. w \<in> K) ws) x) = (if x \<in> K then int (count_list ws x) else 0)"
  by (induction ws) auto

section \<open>Facts about \<open>find_top_k_mers\<close>\<close>

lemma apply_each_pure:
  assumes "\<And>x. f x = Inr (g x)"
  shows "apply_each f xs = Inr (map g xs)"
  by (induction xs) (simp_all add: assms)

lemma dict_as_map:
  assumes "distinct (keys d)"
  shows "d = map (\<lambda>k. (k, value_or_0 d k)) (keys d)"
  using assms
proof (induction d)
  case Nil
  then show ?case by simp
next
  case (Cons kv d)
  have d: "distinct (keys d)" "fst kv \<notin> set (keys d)"
    using Cons.prems by (simp_all add: keys_Cons)
  have "map (\<lambda>k. (k, value_or_0 (kv # d) k)) (keys d) = map (\<lambda>k. (k, value_or_0 d k)) (keys d)"
    using d(2) by (intro map_cong refl) (auto simp: value_or_0_def)
  also have "\<dots> = d" using Cons.IH[OF d(1)] by simp
  finally show ?case by (cases kv) (simp add: keys_Cons value_or_0_def)
qed

lemma sum_filter_concat:
  "sum_list (map snd (filter P (concat ds))) = (\<Sum>d\<leftarrow>ds. sum_list (map snd (filter P d)))"
  by (induction ds) simp_all

lemma fold_over_concat: "fold f (concat xss) s = fold (fold f) xss s"
  by (induction xss arbitrary: s) simp_all

lemma aggregate_all:
  "for_each (\<lambda>seq_results. for_each aggregate_k_mer seq_results) ds agg
     = Inr (fold (\<lambda>kv. dict_incr (fst kv) (snd kv)) (concat ds) agg)"
proof -
  have inner: "for_each aggregate_k_mer d a = Inr (fold (\<lambda>kv. dict_incr (fst kv) (snd kv)) d a)"
    for d a
    by (rule for_each_pure) (rule aggregate_k_mer_incr)
  have "for_each (\<lambda>seq_results. for_each aggregate_k_mer seq_results) ds agg
          = Inr (fold (fold (\<lambda>kv. dict_incr (fst kv) (snd kv))) ds agg)"
    by (rule for_each_pure) (rule inner)
  then show ?thesis by (simp add: fold_over_concat)
qed

lemma aggregated_totals:
  assumes "\<forall>d \<in> set ds. distinct (keys d)"
  shows "fold (\<lambda>kv. dict_incr (fst kv) (snd kv)) (concat ds) []
           = map (\<lambda>key. (key, \<Sum>d\<leftarrow>ds. value_or_0 d key)) (first_seen (concat (map keys ds)))"
proof -
  let ?agg = "fold (\<lambda>kv. dict_incr (fst kv) (snd kv)) (concat ds) []"
  have "keys ?agg = fold insert_key (map fst (concat ds)) []"
    using fold_incr_keys[of "concat ds" "[]"] by simp
  also have "map fst (concat ds) = concat (map keys ds)"
    by (simp add: map_concat keys_def[abs_def])
  finally have k: "keys ?agg = first_seen (concat (map keys ds))"
    by (simp add: first_seen_fold)
  have "value_or_0 ?agg x = (\<Sum>d\<leftarrow>ds. value_or_0 d x)" for x
  proof -
    have "value_or_0 ?agg x = sum_list (map snd (filter (\<lambda>kv. fst kv = x) (concat ds)))"
      using fold_incr_value_or_0[of "concat ds" "[]" x] by (simp add: value_or_0_def)
    also have "\<dots> = (\<Sum>d\<leftarrow>ds. sum_list (map snd (filter (\<lambda>kv. fst kv = x) d)))"
      by (rule sum_filter_concat)
    also have "\<dots> = (\<Sum>d\<leftarrow>ds. value_or_0 d x)"
      using assms by (intro arg_cong[where f = sum_list] map_cong refl sum_key_distinct) simp
    finally show ?thesis .
  qed
  moreover have "distinct (keys ?agg)"
    unfolding k first_seen_fold by (rule distinct_fold_insert_key) simp
  ultimately show ?thesis using dict_as_map[of ?agg] k by simp
qed

lemma find_k_mers_distinct:
  "distinct (keys (fold (\<lambda>kv. dict_incr (fst kv) (snd kv)) items []))"
  using fold_incr_keys[of items "[]"] by (simp add: distinct_fold_insert_key)

lemma top_slice: "0 \<le> n \<Longrightarrow> py_slice xs 0 n = take (nat n) xs"
  using py_slice_nat[of xs 0 "nat n"] by simp

lemma sorted_by_count_desc:
  "sorted_wrt (\<ge>) (map snd (sort_key (\<lambda>kv. - snd kv) (d :: ('k \<times> int) list)))"
proof -
  have "sorted (map (\<lambda>kv. - snd kv) (sort_key (\<lambda>kv. - snd kv) d))" by (rule sorted_sort_key)
  then show ?thesis by (simp add: sorted_wrt_map)
qed

lemma stable_by_count:
  "filter (\<lambda>kv. snd kv = c) (sort_key (\<lambda>kv. - snd kv) (d :: ('k \<times> int) list))
     = filter (\<lambda>kv. snd kv = c) d"
  using sort_key_stable[of "\<lambda>kv. - snd kv" "- c" d] by simp

lemma top_slice_any:
  "py_slice xs 0 n = take (nat (if n < 0 then n + int (length xs) else n)) xs"
  by (auto simp: py_slice_def Let_def min_def max_def)

lemma take_sorted_top:
  assumes "sorted_wrt (\<ge>) (map snd (s :: ('k \<times> int) list))"
  shows "\<forall>kv \<in> set (take j s). \<forall>kv' \<in> set s. kv' \<notin> set (take j s) \<longrightarrow> snd kv' \<le> snd kv"
proof -
  have "sorted_wrt (\<lambda>x y. snd y \<le> snd x) (take j s @ drop j s)"
    using assms by (simp add: sorted_wrt_map)
  then have "\<forall>x \<in> set (take j s). \<forall>y \<in> set (drop j s). snd y \<le> snd x"
    unfolding sorted_wrt_append by blast
  moreover have "set s = set (take j s) \<union> set (drop j s)"
    using set_append[of "take j s" "drop j s"] by simp
  ultimately show ?thesis by blast
qed

section \<open>Facts about \<open>get_gc_stats\<close>\<close>

lemma gc_counts_bounded:
  "int (count_list sequence CHR ''C'') + int (count_list sequence CHR ''G'') \<le> int (length sequence)"
  by (induction sequence) auto

lemma gc_counts_bounded_valid:
  assumes "''C'' \<in> set valid" "''G'' \<in> set valid"
  shows "int (count_list sequence CHR ''C'') + int (count_list sequence CHR ''G'')
           \<le> int (length sequence) - int (length (filter (\<lambda>base. [base] \<notin> set valid) sequence))"
  using assms by (induction sequence) auto

text \<open>
  With no alphabet, or with an alphabet that contains both \<open>C\<close> and \<open>G\<close>, every
  counted base is a valid one and the GC distribution lies between 0 and 1.
\<close>

lemma gc_distribution_unit_interval:
  assumes "valid_nucleobases = None
           \<or> (\<exists>valid. valid_nucleobases = Some valid \<and> ''C'' \<in> set valid \<and> ''G'' \<in> set valid)"
    and "get_gc_stats sequence valid_nucleobases = Inr stats"
  shows "\<exists>g. dict_get stats ''gc_distribution'' = Inr g \<and> 0 \<le> g \<and> g \<le> 1"
proof -
  define total_valid where "total_valid =
    (case valid_nucleobases of
       None \<Rightarrow> int (length sequence)
     | Some valid \<Rightarrow> int (length sequence)
         - int (length (filter (\<lambda>base. [base] \<notin> set valid) sequence)))"
  define gc where "gc = int (count_list sequence CHR ''C'') + int (count_list sequence CHR ''G'')"
  have le: "gc \<le> total_valid"
    using assms(1) gc_counts_bounded[of sequence] gc_counts_bounded_valid[of _ sequence]
    by (auto simp: gc_def total_valid_def)
  have nn: "0 \<le> gc" by (simp add: gc_def)
  from assms(2) have nz: "total_valid \<noteq> 0"
    and st: "dict_get stats ''gc_distribution'' = Inr (real_of_int gc / real_of_int total_valid)"
    by (auto simp: get_gc_stats_def Let_def py_truediv_def total_valid_def gc_def dict_get_def
        split: if_splits option.splits)
  have "0 \<le> real_of_int gc / real_of_int total_valid" using nn le by simp
  moreover have "real_of_int gc / real_of_int total_valid \<le> 1" using nn le nz by simp
  ultimately show ?thesis using st by blast
qed

section \<open>The window scanner\<close>

text \<open>
  Claim C7. For \<open>win_len \<ge> 1\<close> and \<open>hop_len \<ge> 1\<close> the scanner yields exactly the
  windows \<open>seq[i * hop_len .. i * hop_len + win_len)\<close> for \<open>i = 0, 1, 2, ...\<close>, in that
  order, for as long as the window lies within the sequence: there are \<open>m\<close> of them,
  where \<open>i < m\<close> holds exactly when window \<open>i\<close> ends at or before the end of the
  sequence. Every yielded window has length \<open>win_len\<close>; no partial window is yielded.
\<close>

theorem C7_window_scanner:
  assumes "1 \<le> win_len" and "1 \<le> hop_len"
  shows "\<exists>m. substrings seq win_len hop_len
               = Inr (map (\<lambda>i. take (nat win_len) (drop (i * nat hop_len) seq)) [0..<m])
           \<and> (\<forall>i. i < m \<longleftrightarrow> i * nat hop_len + nat win_len \<le> length seq)
           \<and> (\<forall>i < m. length (take (nat win_len) (drop (i * nat hop_len) seq)) = nat win_len)"
proof -
  from substrings_from_windows[OF assms, of seq 0] obtain m where
    m: "substrings_from seq win_len hop_len 0
          = map (\<lambda>j. take (nat win_len) (drop (j * nat hop_len) seq)) [0..<m]"
       "\<forall>j. j < m \<longleftrightarrow> j * nat hop_len + nat win_len \<le> length seq"
    by auto
  have "length (take (nat win_len) (drop (i * nat hop_len) seq)) = nat win_len" if "i < m" for i
    using m(2)[rule_format, of i] that by simp
  moreover have "substrings seq win_len hop_len = Inr (substrings_from seq win_len hop_len 0)"
    using assms(2) by (simp add: substrings_def)
  ultimately show ?thesis using m by auto
qed

theorem C7_window_scanner_witness:
  "(1::int) \<le> 2 \<and> substrings ''ABCDE'' 2 2 = Inr [''AB'', ''CD'']
   \<and> (\<exists>m. substrings ''ABCDE'' 2 2
               = Inr (map (\<lambda>i. take (nat 2) (drop (i * nat 2) ''ABCDE'')) [0..<m])
           \<and> (\<forall>i. i < m \<longleftrightarrow> i * nat 2 + nat 2 \<le> length ''ABCDE'')
           \<and> (\<forall>i < m. length (take (nat 2) (drop (i * nat 2) ''ABCDE'')) = nat 2))"
proof -
  have h: "(1::int) \<le> 2" by simp
  have v: "substrings ''ABCDE'' 2 2 = Inr [''AB'', ''CD'']" by code_simp
  show ?thesis using h v C7_window_scanner[OF h h, of "''ABCDE''"] by blast
qed

section \<open>Counting k-mers\<close>

text \<open>
  Claim C5. For \<open>k \<ge> 1\<close>: if \<open>k \<le> len(sequence)\<close> the counts returned by
  \<open>find_k_mers\<close> add up to \<open>len(sequence) - k + 1\<close>, and otherwise the returned
  mapping is empty.
\<close>

theorem C5_k_mer_count_sum:
  assumes "1 \<le> k"
  shows "(k \<le> int (length sequence) \<longrightarrow>
            (\<exists>d. find_k_mers sequence k = Inr d
                 \<and> sum_list (dict_values d) = int (length sequence) - k + 1))
       \<and> (int (length sequence) < k \<longrightarrow> find_k_mers sequence k = Inr [])"
proof -
  from k_mer_windows[OF assms, of sequence] obtain m where
    m: "substrings_from sequence k 1 0 = map (\<lambda>j. take (nat k) (drop j sequence)) [0..<m]"
       "\<forall>j. j < m \<longleftrightarrow> j + nat k \<le> length sequence"
    by auto
  let ?d = "fold (\<lambda>kv. dict_incr (fst kv) (snd kv))
              (map (\<lambda>w. (w, 1)) (substrings_from sequence k 1 0)) []"
  have "sum_list (dict_values ?d)
          = sum_list (map snd (map (\<lambda>w. (w, 1::int)) (substrings_from sequence k 1 0)))"
    using fold_incr_sum[of "map (\<lambda>w. (w, 1::int)) (substrings_from sequence k 1 0)" "[]"]
    by simp
  then have sum: "sum_list (dict_values ?d) = int m"
    by (simp add: m(1) comp_def sum_list_triv)
  have "int m = int (length sequence) - k + 1" if "k \<le> int (length sequence)"
  proof -
    have "length sequence - nat k < m" using m(2)[rule_format, of "length sequence - nat k"] that assms by auto
    moreover have "\<not> length sequence - nat k + 1 < m"
      using m(2)[rule_format, of "length sequence - nat k + 1"] by auto
    ultimately show ?thesis using that assms by auto
  qed
  moreover have "?d = []" if "int (length sequence) < k"
  proof -
    have "\<not> 0 < m" using m(2)[rule_format, of 0] that by auto
    then show ?thesis by (simp add: m(1))
  qed
  ultimately show ?thesis using sum by (simp add: find_k_mers_fold)
qed

theorem C5_k_mer_count_sum_witness:
  "(1::int) \<le> 2 \<and> (2::int) \<le> int (length ''ABABA'') \<and> int (length ''A'') < 2
   \<and> (\<exists>d. find_k_mers ''ABABA'' 2 = Inr d \<and> sum_list (dict_values d) = 4)
   \<and> find_k_mers ''A'' 2 = Inr []"
proof -
  have h: "(1::int) \<le> 2" by simp
  show ?thesis
    using C5_k_mer_count_sum[OF h, of "''ABABA''"] C5_k_mer_count_sum[OF h, of "''A''"] by simp
qed

text \<open>
  Claim C10. For \<open>k \<ge> 1\<close> every count in the mapping returned by \<open>find_k_mers\<close> is
  at least 1, and the keys of the mapping (each present once) are exactly the
  substrings of length \<open>k\<close> that occur in the sequence.
\<close>

theorem C10_k_mer_counts_positive:
  assumes "1 \<le> k"
  shows "\<exists>d. find_k_mers sequence k = Inr d
           \<and> (\<forall>kv \<in> set d. 1 \<le> snd kv)
           \<and> distinct (keys d)
           \<and> set (keys d) = {take (nat k) (drop i sequence) | i. i + nat k \<le> length sequence}"
proof -
  from k_mer_windows[OF assms, of sequence] obtain m where
    m: "substrings_from sequence k 1 0 = map (\<lambda>j. take (nat k) (drop j sequence)) [0..<m]"
       "\<forall>j. j < m \<longleftrightarrow> j + nat k \<le> length sequence"
    by auto
  let ?items = "map (\<lambda>w. (w, 1::int)) (substrings_from sequence k 1 0)"
  let ?d = "fold (\<lambda>kv. dict_incr (fst kv) (snd kv)) ?items []"
  have "\<forall>kv \<in> set ?d. 1 \<le> snd kv"
    by (rule fold_incr_positive) auto
  moreover have "keys ?d = fold insert_key (map fst ?items) []"
    using fold_incr_keys[of ?items "[]"] by simp
  then have k: "keys ?d = fold insert_key (substrings_from sequence k 1 0) []"
    by (simp add: comp_def)
  moreover from k have "distinct (keys ?d)" by (simp add: distinct_fold_insert_key)
  moreover have "set (keys ?d) = {take (nat k) (drop i sequence) | i. i + nat k \<le> length sequence}"
  proof -
    have "set (keys ?d) = set (substrings_from sequence k 1 0)"
      using k by (simp add: set_fold_insert_key)
    also have "\<dots> = set (map (\<lambda>j. take (nat k) (drop j sequence)) [0..<m])"
      by (simp only: m(1))
    also have "\<dots> = {take (nat k) (drop i sequence) | i. i < m}"
      by (simp add: image_def Bex_def conj_commute)
    also have "\<dots> = {take (nat k) (drop i sequence) | i. i + nat k \<le> length sequence}"
      using m(2) by simp
    finally show ?thesis .
  qed
  ultimately show ?thesis by (simp add: find_k_mers_fold)
qed

theorem C10_k_mer_counts_positive_witness:
  "(1::int) \<le> 2 \<and> find_k_mers ''ABABA'' 2 = Inr [(''AB'', 2), (''BA'', 2)]
   \<and> (\<exists>d. find_k_mers ''ABABA'' 2 = Inr d
           \<and> (\<forall>kv \<in> set d. 1 \<le> snd kv)
           \<and> distinct (keys d)
           \<and> set (keys d) = {take (nat 2) (drop i ''ABABA'') | i. i + nat 2 \<le> length ''ABABA''})"
proof -
  have h: "(1::int) \<le> 2" by simp
  have v: "find_k_mers ''ABABA'' 2 = Inr [(''AB'', 2), (''BA'', 2)]" by code_simp
  show ?thesis using h v C10_k_mer_counts_positive[OF h, of "''ABABA''"] by blast
qed

section \<open>Palindromes\<close>

text \<open>
  Claim C9. In the result of \<open>find_palindromes\<close>, \<open>num_palindromes\<close> equals the length
  of the \<open>palindromes\<close> list.
\<close>

theorem C9_palindrome_counter:
  "num_palindromes (find_palindromes sequence min_substring_len min_bases)
     = int (length (palindromes (find_palindromes sequence min_substring_len min_bases)))"
  using find_palindromes_ok[of sequence min_substring_len min_bases] by (simp add: stats_ok_def)

theorem C9_palindrome_counter_witness:
  "num_palindromes (find_palindromes ''ABACACBBCA'' 2 2) = 5
   \<and> length (palindromes (find_palindromes ''ABACACBBCA'' 2 2)) = 5"
proof -
  have "length (palindromes (find_palindromes ''ABACACBBCA'' 2 2)) = 5" by code_simp
  then show ?thesis using C9_palindrome_counter[of "''ABACACBBCA''" 2 2] by simp
qed

text \<open>
  Claim C3. Every record \<open>(pos, length)\<close> emitted by the palindrome detector lies
  within the sequence, and its substring \<open>sequence[pos .. pos + length)\<close> equals its own
  reverse, is strictly longer than \<open>min_substring_len\<close>, and contains at least
  \<open>min_bases\<close> distinct characters.
\<close>

theorem C3_palindrome_records:
  "\<forall>p \<in> set (palindromes (find_palindromes sequence min_substring_len min_bases)).
     0 \<le> pos p \<and> pos p + length_p p \<le> int (length sequence)
     \<and> (let s = take (nat (length_p p)) (drop (nat (pos p)) sequence)
        in s = rev s \<and> min_substring_len < length_p p \<and> min_bases \<le> int (card (set s)))"
  using find_palindromes_ok[of sequence min_substring_len min_bases]
  by (simp add: stats_ok_def palindrome_ok_def list_all_iff)

theorem C3_palindrome_records_witness:
  "\<exists>p \<in> set (palindromes (find_palindromes ''ABACACBBCA'' 2 2)).
     pos p = 4 \<and> length_p p = 6 \<and> pos p + length_p p \<le> int (length ''ABACACBBCA'')
     \<and> take (nat (length_p p)) (drop (nat (pos p)) ''ABACACBBCA'') = ''ACBBCA''
     \<and> (let s = take (nat (length_p p)) (drop (nat (pos p)) ''ABACACBBCA'')
        in s = rev s \<and> 2 < length_p p \<and> 2 \<le> int (card (set s)))"
proof -
  let ?p = "\<lparr>pos = 4, length_p = 6\<rparr>"
  have m: "?p \<in> set (palindromes (find_palindromes ''ABACACBBCA'' 2 2))"
    by code_simp
  have "take (nat (length_p ?p)) (drop (nat (pos ?p)) ''ABACACBBCA'') = ''ACBBCA''"
    by simp
  then show ?thesis
    using m C3_palindrome_records[of "''ABACACBBCA''" 2 2, rule_format, OF m]
    by (intro bexI[of _ ?p]) simp_all
qed

section \<open>Reductions over stat records\<close>

text \<open>
  Claim C8. For a non-empty list of records sharing one schema: if the field is in
  the schema, \<open>find_max\<close> returns the first index at which the largest value of the
  field occurs, with the record at that index, and \<open>find_min\<close> returns the first index
  at which the smallest value occurs, with its record; if the field is not in the
  schema, both raise KeyError.
\<close>

theorem C8_find_max_find_min:
  assumes "stats \<noteq> []" and "\<forall>r \<in> set stats. set (keys r) = schema"
  shows "(field \<in> schema \<longrightarrow>
            (\<exists>i v. find_max stats field = Inr (i, stats ! i) \<and> i < length stats
                 \<and> dict_get (stats ! i) field = Inr v
                 \<and> (\<forall>j < length stats. \<forall>u. dict_get (stats ! j) field = Inr u \<longrightarrow> u \<le> v)
                 \<and> (\<forall>j < i. \<forall>u. dict_get (stats ! j) field = Inr u \<longrightarrow> u < v))
          \<and> (\<exists>i v. find_min stats field = Inr (i, stats ! i) \<and> i < length stats
                 \<and> dict_get (stats ! i) field = Inr v
                 \<and> (\<forall>j < length stats. \<forall>u. dict_get (stats ! j) field = Inr u \<longrightarrow> v \<le> u)
                 \<and> (\<forall>j < i. \<forall>u. dict_get (stats ! j) field = Inr u \<longrightarrow> v < u)))
       \<and> (field \<notin> schema \<longrightarrow>
            find_max stats field = Inl KeyError \<and> find_min stats field = Inl KeyError)"
proof (intro conjI impI)
  assume f: "field \<in> schema"
  define val where "val j = (case map_of (stats ! j) field of Some v \<Rightarrow> v | None \<Rightarrow> 0)" for j
  have val: "\<forall>j < length stats. dict_get (stats ! j) field = Inr (val j)"
    using schema_field_value[OF assms(2) f] by (simp add: val_def)
  obtain first rest where first: "stats = first # rest" using assms(1) by (cases stats) auto
  have pos: "length stats \<noteq> 0" using assms(1) by simp
  show "\<exists>i v. find_max stats field = Inr (i, stats ! i) \<and> i < length stats
          \<and> dict_get (stats ! i) field = Inr v
          \<and> (\<forall>j < length stats. \<forall>u. dict_get (stats ! j) field = Inr u \<longrightarrow> u \<le> v)
          \<and> (\<forall>j < i. \<forall>u. dict_get (stats ! j) field = Inr u \<longrightarrow> u < v)"
  proof -
    have "max_inv stats val 0 (0, MinusInf, first)"
      by (simp add: max_inv_def first)
    from find_max_loop[OF this _ _ val, of stats] obtain mi mv rd where
      l: "for_each (find_max_step stats field) (enumerate 0 stats) (0, MinusInf, first)
            = Inr (mi, mv, rd)"
      and inv: "max_inv stats val (length stats) (mi, mv, rd)"
      by auto
    from inv pos have i: "rd = stats ! mi" "mi < length stats"
      "\<forall>j < length stats. val j \<le> val mi" "\<forall>j < mi. val j < val mi"
      by (simp_all add: max_inv_def)
    have "find_max stats field = Inr (mi, stats ! mi)"
      using l i(1) by (simp add: find_max_def first)
    moreover have "dict_get (stats ! mi) field = Inr (val mi)" using val i(2) by simp
    moreover have "\<forall>j < length stats. \<forall>u. dict_get (stats ! j) field = Inr u \<longrightarrow> u \<le> val mi"
      using val i(3) by auto
    moreover have "\<forall>j < mi. \<forall>u. dict_get (stats ! j) field = Inr u \<longrightarrow> u < val mi"
      using val i(2,4) by auto
    ultimately show ?thesis using i(2) by blast
  qed
  show "\<exists>i v. find_min stats field = Inr (i, stats ! i) \<and> i < length stats
          \<and> dict_get (stats ! i) field = Inr v
          \<and> (\<forall>j < length stats. \<forall>u. dict_get (stats ! j) field = Inr u \<longrightarrow> v \<le> u)
          \<and> (\<forall>j < i. \<forall>u. dict_get (stats ! j) field = Inr u \<longrightarrow> v < u)"
  proof -
    have "min_inv stats val 0 (0, PlusInf, first)"
      by (simp add: min_inv_def first)
    from find_min_loop[OF this _ _ val, of stats] obtain mi mv rd where
      l: "for_each (find_min_step stats field) (enumerate 0 stats) (0, PlusInf, first)
            = Inr (mi, mv, rd)"
      and inv: "min_inv stats val (length stats) (mi, mv, rd)"
      by auto
    from inv pos have i: "rd = stats ! mi" "mi < length stats"
      "\<forall>j < length stats. val mi \<le> val j" "\<forall>j < mi. val mi < val j"
      by (simp_all add: min_inv_def)
    have "find_min stats field = Inr (mi, stats ! mi)"
      using l i(1) by (simp add: find_min_def first)
    moreover have "dict_get (stats ! mi) field = Inr (val mi)" using val i(2) by simp
    moreover have "\<forall>j < length stats. \<forall>u. dict_get (stats ! j) field = Inr u \<longrightarrow> val mi \<le> u"
      using val i(3) by auto
    moreover have "\<forall>j < mi. \<forall>u. dict_get (stats ! j) field = Inr u \<longrightarrow> val mi < u"
      using val i(2,4) by auto
    ultimately show ?thesis using i(2) by blast
  qed
next
  assume f: "field \<notin> schema"
  obtain first rest where first: "stats = first # rest" using assms(1) by (cases stats) auto
  have "field \<notin> set (keys first)" using assms(2) f first by simp
  then have g: "dict_get first field = Inl KeyError"
    using map_of_keys[of first field] by (simp add: dict_get_def)
  show "find_max stats field = Inl KeyError"
    using g by (simp add: find_max_def first enumerate_simps find_max_step_def)
  show "find_min stats field = Inl KeyError"
    using g by (simp add: find_min_def first enumerate_simps find_min_step_def)
qed

theorem C8_find_max_find_min_witness:
  "[[(''x'', 2)], [(''x'', 4)], [(''x'', 4)], [(''x'', 2::real)]] \<noteq> []
   \<and> map (\<lambda>r. set (keys r)) [[(''x'', 2)], [(''x'', 4)], [(''x'', 4)], [(''x'', 2::real)]]
       = [{''x''}, {''x''}, {''x''}, {''x''}]
   \<and> ''x'' \<in> {''x''} \<and> ''y'' \<notin> {''x''}
   \<and> find_max [[(''x'', 2)], [(''x'', 4)], [(''x'', 4)], [(''x'', 2)]] ''x'' = Inr (1, [(''x'', 4)])
   \<and> find_min [[(''x'', 2)], [(''x'', 4)], [(''x'', 4)], [(''x'', 2)]] ''x'' = Inr (0, [(''x'', 2)])
   \<and> find_max [[(''x'', 2)], [(''x'', 4)], [(''x'', 4)], [(''x'', 2)]] ''y'' = Inl KeyError
   \<and> find_min [[(''x'', 2)], [(''x'', 4)], [(''x'', 4)], [(''x'', 2)]] ''y'' = Inl KeyError"
proof -
  let ?stats = "[[(''x'', 2)], [(''x'', 4)], [(''x'', 4)], [(''x'', 2::real)]]"
  have h1: "?stats \<noteq> []" by simp
  have h2: "\<forall>r \<in> set ?stats. set (keys r) = {''x''}" by (simp add: keys_def)
  have v: "find_max ?stats ''x'' = Inr (1, [(''x'', 4)])"
          "find_min ?stats ''x'' = Inr (0, [(''x'', 2)])"
    by (simp_all add: find_max_def find_min_def enumerate_simps find_max_step_def
          find_min_step_def dict_get_def)
  have h3: "map (\<lambda>r. set (keys r)) ?stats = [{''x''}, {''x''}, {''x''}, {''x''}]"
    by (simp add: keys_def)
  show ?thesis
    using h1 h3 v C8_find_max_find_min[OF h1 h2, of "''y''"] C8_find_max_find_min[OF h1 h2, of "''x''"]
    by simp
qed

text \<open>
  Claim C2, as the code has it. \<open>reduce_avg\<close> raises IndexError on an empty list. On a
  non-empty list it raises KeyError when some record has a field that the first
  record lacks. When every record's fields are fields of the first record (in
  particular when all records share one schema) it returns a record with the fields
  of the first record, each holding the sum of that field over the records that have
  it divided by the number of records: for records sharing one schema, the per-field
  arithmetic mean. Records are dicts, so their keys are distinct.
\<close>

theorem C2_reduce_avg:
  "reduce_avg [] = Inl IndexError
   \<and> (stats \<noteq> [] \<and> (\<exists>r \<in> set stats. \<not> set (keys r) \<subseteq> set (keys (hd stats)))
        \<longrightarrow> reduce_avg stats = Inl KeyError)
   \<and> (stats \<noteq> [] \<and> (\<forall>r \<in> set stats. distinct (keys r) \<and> set (keys r) \<subseteq> set (keys (hd stats)))
        \<longrightarrow> (\<exists>avg. reduce_avg stats = Inr avg \<and> keys avg = keys (hd stats)
               \<and> (\<forall>k \<in> set (keys (hd stats)).
                     dict_get avg k = Inr ((\<Sum>r\<leftarrow>stats. value_or_0 r k) / real (length stats)))))"
proof (intro conjI impI)
  show "reduce_avg [] = Inl IndexError" by (simp add: reduce_avg_def)
next
  assume a: "stats \<noteq> [] \<and> (\<exists>r \<in> set stats. \<not> set (keys r) \<subseteq> set (keys (hd stats)))"
  then obtain first rest where first: "stats = first # rest" by (cases stats) auto
  from zeros_dict[of first] obtain zeros where
    z: "dict_comp (\<lambda>item. Inr (fst item, 0::real)) first = Inr zeros"
       "set (keys zeros) = set (keys first)"
    by auto
  have "\<exists>r \<in> set stats. \<not> set (keys r) \<subseteq> set (keys zeros)"
    using a z(2) first by simp
  then have "for_each add_record stats zeros = Inl KeyError" by (rule add_records_fail)
  then show "reduce_avg stats = Inl KeyError"
    using z(1) first by (simp add: reduce_avg_def)
next
  assume a: "stats \<noteq> [] \<and> (\<forall>r \<in> set stats. distinct (keys r) \<and> set (keys r) \<subseteq> set (keys (hd stats)))"
  then obtain first rest where first: "stats = first # rest" by (cases stats) auto
  let ?n = "real (length stats)"
  have n: "?n \<noteq> 0" using first by simp
  have d: "distinct (keys first)" using a first by simp
  from zeros_dict[of first] d have
    z: "dict_comp (\<lambda>item. Inr (fst item, 0::real)) first = Inr (map (\<lambda>item. (fst item, 0)) first)"
    by auto
  let ?zeros = "map (\<lambda>item. (fst item, 0::real)) first"
  have kz: "keys ?zeros = keys first" by (simp add: keys_def comp_def)
  have vz: "value_or_0 ?zeros x = 0" for x
  proof (cases "map_of ?zeros x")
    case None
    then show ?thesis by (simp add: value_or_0_def)
  next
    case (Some c)
    then have "(x, c) \<in> set ?zeros" by (rule map_of_SomeD)
    then have "c = 0" by auto
    with Some show ?thesis by (simp add: value_or_0_def)
  qed
  have "\<forall>r \<in> set stats. set (keys r) \<subseteq> set (keys ?zeros)"
    using a first kz by simp
  from add_records_ok[OF this] obtain agg where
    agg: "for_each add_record stats ?zeros = Inr agg" "keys agg = keys ?zeros"
         "\<forall>x. value_or_0 agg x = value_or_0 ?zeros x
                  + (\<Sum>r\<leftarrow>stats. sum_list (map snd (filter (\<lambda>kv. fst kv = x) r)))"
    by auto
  have sums: "(\<Sum>r\<leftarrow>stats. sum_list (map snd (filter (\<lambda>kv. fst kv = x) r)))
                = (\<Sum>r\<leftarrow>stats. value_or_0 r x)" for x
    using a by (intro arg_cong[where f = sum_list] map_cong refl sum_key_distinct) simp
  have va: "value_or_0 agg x = (\<Sum>r\<leftarrow>stats. value_or_0 r x)" for x
    using agg(3) vz sums by simp
  have ka: "keys agg = keys first" using agg(2) kz by simp
  let ?avg = "map (\<lambda>item. (fst item, snd item / ?n)) agg"
  have "dict_comp (\<lambda>item. case py_truediv (snd item) ?n of
                             Inl e \<Rightarrow> Inl e
                           | Inr val \<Rightarrow> Inr (fst item, val)) agg = Inr ?avg"
    using d n by (intro dict_comp_distinct) (simp_all add: ka py_truediv_def)
  then have r: "reduce_avg stats = Inr ?avg"
    using z agg(1) first by (simp add: reduce_avg_def)
  have "keys ?avg = keys (hd stats)" using ka first by (simp add: keys_def comp_def)
  moreover have "\<forall>k \<in> set (keys (hd stats)).
      dict_get ?avg k = Inr ((\<Sum>r\<leftarrow>stats. value_or_0 r k) / ?n)"
  proof
    fix k assume "k \<in> set (keys (hd stats))"
    then have "k \<in> set (keys agg)" using ka first by simp
    from dict_get_map_values[OF this, of "\<lambda>v. v / ?n"] show
      "dict_get ?avg k = Inr ((\<Sum>r\<leftarrow>stats. value_or_0 r k) / ?n)"
      by (simp add: va)
  qed
  ultimately show "\<exists>avg. reduce_avg stats = Inr avg \<and> keys avg = keys (hd stats)
               \<and> (\<forall>k \<in> set (keys (hd stats)).
                     dict_get avg k = Inr ((\<Sum>r\<leftarrow>stats. value_or_0 r k) / real (length stats)))"
    using r by blast
qed

text \<open>
  Claim C2 as stated says that \<open>reduce_avg\<close> fails whenever the schemas of the records
  differ. It does not when a later record only lacks fields of the first one: the two
  records below have different schemas, and a record is returned.
\<close>

theorem C2_reduce_avg_counterexample:
  "set (keys [(''x'', 2::real), (''y'', 1)]) \<noteq> set (keys [(''x'', 4::real)])
   \<and> reduce_avg [[(''x'', 2), (''y'', 1)], [(''x'', 4)]] = Inr [(''x'', 3), (''y'', 1 / 2)]"
  by (simp add: keys_def reduce_avg_def dict_comp_def add_record_def dict_add_def dict_get_def
        py_truediv_def)

theorem C2_reduce_avg_witness:
  "reduce_avg [] = Inl IndexError
   \<and> reduce_avg [[(''x'', 2)], [(''x'', 4), (''y'', 1)]] = Inl KeyError
   \<and> (\<exists>avg. reduce_avg [[(''x'', 2)], [(''x'', 4)]] = Inr avg \<and> keys avg = [''x'']
          \<and> dict_get avg ''x'' = Inr 3)"
proof -
  let ?bad = "[[(''x'', 2)], [(''x'', 4), (''y'', 1::real)]]"
  let ?good = "[[(''x'', 2)], [(''x'', 4::real)]]"
  have b: "?bad \<noteq> [] \<and> (\<exists>r \<in> set ?bad. \<not> set (keys r) \<subseteq> set (keys (hd ?bad)))"
    by (simp add: keys_def)
  have g: "?good \<noteq> [] \<and> (\<forall>r \<in> set ?good. distinct (keys r) \<and> set (keys r) \<subseteq> set (keys (hd ?good)))"
    by (simp add: keys_def)
  from C2_reduce_avg[of ?bad] b have 1: "reduce_avg [] = Inl IndexError" "reduce_avg ?bad = Inl KeyError"
    by blast+
  from C2_reduce_avg[of ?good] g obtain avg where
    "reduce_avg ?good = Inr avg" "keys avg = keys (hd ?good)"
    "\<forall>k \<in> set (keys (hd ?good)). dict_get avg k = Inr ((\<Sum>r\<leftarrow>?good. value_or_0 r k) / real (length ?good))"
    by blast
  then have "reduce_avg ?good = Inr avg \<and> keys avg = [''x''] \<and> dict_get avg ''x'' = Inr 3"
    by (simp add: keys_def value_or_0_def)
  with 1 show ?thesis by blast
qed

section \<open>Composition analyzers\<close>

text \<open>
  Claim C6, as the code has it. Let \<open>windows\<close> be the non-overlapping 2-character
  windows of the sequence, the keys be the concatenations of two alphabet entries, and
  \<open>total\<close> the number of windows that are keys. A window that is not a key is skipped
  and never makes the analysis fail. With an empty alphabet the result is the empty
  mapping (nothing is divided, although \<open>total\<close> is 0). With a non-empty alphabet the
  analysis raises ZeroDivisionError when \<open>total\<close> is 0. When \<open>total\<close> is not 0 it returns
  a mapping whose keys are the keys in first-met order, each with the number of
  windows equal to that key divided by \<open>total\<close>. So the analysis fails exactly when
  \<open>total\<close> is 0 and the alphabet is non-empty.
\<close>

theorem C6_dinucleotide_freqs:
  "\<exists>windows. substrings sequence 2 2 = Inr windows
     \<and> (let valid_dinucleotides =
              concat (map (\<lambda>i. map (\<lambda>j. i @ j) valid_nucleobases) valid_nucleobases);
            total = length (filter (\<lambda>w. w \<in> set valid_dinucleotides) windows)
        in (valid_nucleobases = [] \<longrightarrow> get_dinucleotide_freqs valid_nucleobases sequence = Inr [])
         \<and> (valid_nucleobases \<noteq> [] \<and> total = 0 \<longrightarrow>
               get_dinucleotide_freqs valid_nucleobases sequence = Inl ZeroDivisionError)
         \<and> (total \<noteq> 0 \<longrightarrow>
               (\<exists>freqs. get_dinucleotide_freqs valid_nucleobases sequence = Inr freqs
                   \<and> keys freqs = first_seen valid_dinucleotides
                   \<and> (\<forall>d \<in> set valid_dinucleotides.
                         dict_get freqs d = Inr (real (count_list windows d) / real total)))))"
proof -
  let ?W = "substrings_from sequence 2 2 0"
  define K where "K = concat (map (\<lambda>i. map (\<lambda>j. i @ j) valid_nucleobases) valid_nucleobases)"
  define total where "total = length (filter (\<lambda>w. w \<in> set K) ?W)"
  have W: "substrings sequence 2 2 = Inr ?W" by (simp add: substrings_def)
  from zero_counts[of K] obtain counts where
    c: "dict_comp (\<lambda>d. Inr (d, 0::int)) K = Inr counts" "keys counts = first_seen K"
       "\<forall>kv \<in> set counts. snd kv = 0"
    by auto
  have ks: "set (keys counts) = set K"
    by (simp add: c(2) first_seen_fold set_fold_insert_key)
  have dk: "distinct (keys counts)"
    by (simp add: c(2) first_seen_fold distinct_fold_insert_key)
  define counted where "counted = fold (\<lambda>w. dict_incr w 1) (filter (\<lambda>w. w \<in> set K) ?W) counts"
  have "for_each count_dinucleotide ?W counts
          = Inr (fold (\<lambda>w d. if w \<in> set (keys d) then dict_incr w 1 d else d) ?W counts)"
    by (rule for_each_pure) (rule count_dinucleotide_pure)
  then have run1: "for_each count_dinucleotide ?W counts = Inr counted"
    by (simp add: count_dinucleotides_filter ks counted_def)
  have kc: "keys counted = keys counts"
    unfolding counted_def fold_count_keys by (rule fold_insert_key_known) (auto simp: ks)
  have sum: "sum_list (dict_values counted) = int total"
    by (simp add: counted_def total_def fold_count_sum value_all_zero(2)[OF c(3)])
  have val: "value_or_0 counted x = (if x \<in> set K then int (count_list ?W x) else 0)" for x
    unfolding counted_def fold_count_value value_all_zero(1)[OF c(3)] valid_windows_count by simp
  let ?entry = "\<lambda>item. case py_truediv (of_int (snd item)) (of_int (int total)) of
                          Inl e \<Rightarrow> Inl e
                        | Inr fraction \<Rightarrow> Inr (fst item, fraction)"
  have run: "get_dinucleotide_freqs valid_nucleobases sequence = dict_comp ?entry counted"
    unfolding get_dinucleotide_freqs_def Let_def K_def[symmetric]
    by (simp add: c(1) W run1 sum)
  have empty: "get_dinucleotide_freqs valid_nucleobases sequence = Inr []"
    if "valid_nucleobases = []"
  proof -
    have "K = []" using that by (simp add: K_def)
    then have "keys counted = []" using kc c(2) by (simp add: first_seen_fold)
    then have "counted = []" by (simp add: keys_def)
    then show ?thesis unfolding run by (simp add: dict_comp_def)
  qed
  have fails: "get_dinucleotide_freqs valid_nucleobases sequence = Inl ZeroDivisionError"
    if "valid_nucleobases \<noteq> []" "total = 0"
  proof -
    from that(1) have "K \<noteq> []" unfolding K_def by (cases valid_nucleobases) auto
    then have "keys counted \<noteq> []" using kc ks by (metis set_empty)
    then obtain item rest where ir: "counted = item # rest"
      by (cases counted) (auto simp: keys_def)
    have "?entry item = Inl ZeroDivisionError" using that(2) by (simp add: py_truediv_def)
    then have "dict_comp ?entry (item # rest) = Inl ZeroDivisionError"
      by (rule dict_comp_first_fails)
    then show ?thesis unfolding run ir .
  qed
  have returns: "\<exists>freqs. get_dinucleotide_freqs valid_nucleobases sequence = Inr freqs
                   \<and> keys freqs = first_seen K
                   \<and> (\<forall>d \<in> set K. dict_get freqs d = Inr (real (count_list ?W d) / real total))"
    if "total \<noteq> 0"
  proof -
    let ?h = "\<lambda>c. real_of_int c / real_of_int (int total)"
    let ?freqs = "map (\<lambda>item. (fst item, ?h (snd item))) counted"
    have "dict_comp ?entry counted = Inr ?freqs"
      using that by (intro dict_comp_distinct) (simp_all add: kc dk py_truediv_def)
    then have "get_dinucleotide_freqs valid_nucleobases sequence = Inr ?freqs"
      unfolding run .
    moreover have "keys ?freqs = first_seen K"
      using kc c(2) by (simp add: keys_def comp_def)
    moreover have "\<forall>d \<in> set K. dict_get ?freqs d = Inr (real (count_list ?W d) / real total)"
    proof
      fix d assume d: "d \<in> set K"
      then have "d \<in> set (keys counted)" using kc ks by simp
      from dict_get_map_values[OF this, of ?h] show
        "dict_get ?freqs d = Inr (real (count_list ?W d) / real total)"
        using d by (simp add: val)
    qed
    ultimately show ?thesis by blast
  qed
  show ?thesis
    unfolding Let_def K_def[symmetric]
  proof (intro exI[of _ ?W] conjI impI)
    show "substrings sequence 2 2 = Inr ?W" by (rule W)
    show "get_dinucleotide_freqs valid_nucleobases sequence = Inr []"
      if "valid_nucleobases = []"
      using that by (rule empty)
    show "get_dinucleotide_freqs valid_nucleobases sequence = Inl ZeroDivisionError"
      if "valid_nucleobases \<noteq> [] \<and> length (filter (\<lambda>w. w \<in> set K) ?W) = 0"
      using that fails by (simp add: total_def)
    show "\<exists>freqs. get_dinucleotide_freqs valid_nucleobases sequence = Inr freqs
            \<and> keys freqs = first_seen K
            \<and> (\<forall>d \<in> set K. dict_get freqs d
                   = Inr (real (count_list ?W d) / real (length (filter (\<lambda>w. w \<in> set K) ?W))))"
      if "length (filter (\<lambda>w. w \<in> set K) ?W) \<noteq> 0"
      using that returns unfolding total_def by blast
  qed
qed

text \<open>
  Claim C6 as stated says that the analysis fails exactly when the total matched count
  is zero. With the empty alphabet the only window of \<open>AC\<close> matches no key, the
  total is zero, and the empty mapping is returned.
\<close>

theorem C6_dinucleotide_freqs_counterexample:
  "substrings ''AC'' 2 2 = Inr [''AC'']
   \<and> length (filter (\<lambda>w. w \<in> set (concat (map (\<lambda>i. map (\<lambda>j. i @ j) []) []))) [''AC'']) = 0
   \<and> get_dinucleotide_freqs [] ''AC'' = Inr []"
  by code_simp

theorem C6_dinucleotide_freqs_witness:
  "get_dinucleotide_freqs [] ''ACACCAXA'' = Inr []
   \<and> get_dinucleotide_freqs [''A'', ''C''] ''XA'' = Inl ZeroDivisionError
   \<and> (\<exists>freqs. get_dinucleotide_freqs [''A'', ''C''] ''ACACCAXA'' = Inr freqs
          \<and> keys freqs = [''AA'', ''AC'', ''CA'', ''CC'']
          \<and> dict_get freqs ''AA'' = Inr 0 \<and> dict_get freqs ''AC'' = Inr (2 / 3)
          \<and> dict_get freqs ''CA'' = Inr (1 / 3) \<and> dict_get freqs ''CC'' = Inr 0)"
proof -
  have w1: "substrings ''ACACCAXA'' 2 2 = Inr [''AC'', ''AC'', ''CA'', ''XA'']"
    and w2: "substrings ''XA'' 2 2 = Inr [''XA'']"
    by code_simp+
  have 1: "get_dinucleotide_freqs [] ''ACACCAXA'' = Inr []"
    using C6_dinucleotide_freqs[of "''ACACCAXA''" "[]"] by (simp add: Let_def)
  have 2: "get_dinucleotide_freqs [''A'', ''C''] ''XA'' = Inl ZeroDivisionError"
    using C6_dinucleotide_freqs[of "''XA''" "[''A'', ''C'']"] w2 by (simp add: Let_def)
  have 3: "\<exists>freqs. get_dinucleotide_freqs [''A'', ''C''] ''ACACCAXA'' = Inr freqs
          \<and> keys freqs = [''AA'', ''AC'', ''CA'', ''CC'']
          \<and> dict_get freqs ''AA'' = Inr 0 \<and> dict_get freqs ''AC'' = Inr (2 / 3)
          \<and> dict_get freqs ''CA'' = Inr (1 / 3) \<and> dict_get freqs ''CC'' = Inr 0"
    using C6_dinucleotide_freqs[of "''ACACCAXA''" "[''A'', ''C'']"] w1
    by (simp add: Let_def first_seen_fold insert_key_def)
  from 1 2 3 show ?thesis by blast
qed

section \<open>Ranking k-mers\<close>

text \<open>
  Claim C4. In combined mode \<open>find_top_k_mers\<close> returns a one-element list holding one
  ranked list. \<open>N\<close> is the parameter \<open>top\<close>, the number of k-mers to report, and
  \<open>per_seq\<close> are the k-mer mappings of the sequences in dataset order. The ranked list
  has at most \<open>N\<close> entries (exactly \<open>N\<close>, or all keys if there are fewer), its counts are
  non-increasing, and the count of each of its keys is the sum of that key's counts
  over all sequences. Its entries are entries of the combined mapping, and no entry
  left out has a larger count than an entry kept. Ties keep first-encountered order:
  with the keys listed in the order in which they are first met (dataset order, then
  each mapping's insertion order), the entries of any one count \<open>c\<close> in the ranked list
  are, in the same order, the first entries of count \<open>c\<close> of that listing.
\<close>

theorem C4_top_k_mers_combined:
  "\<exists>per_seq ranked.
       apply_foreach seq_obj (\<lambda>seq. find_k_mers seq k) = Inr per_seq
     \<and> find_top_k_mers seq_obj top' k False = Inr [ranked]
     \<and> (0 \<le> top' \<longrightarrow> int (length ranked) \<le> top')
     \<and> sorted_wrt (\<ge>) (map snd ranked)
     \<and> (\<forall>kv \<in> set ranked. snd kv = (\<Sum>d\<leftarrow>per_seq. value_or_0 d (fst kv)))
     \<and> (let order = first_seen (concat (map keys per_seq));
             totals = map (\<lambda>key. (key, \<Sum>d\<leftarrow>per_seq. value_or_0 d key)) order
         in (0 \<le> top' \<longrightarrow> length ranked = min (nat top') (length order))
            \<and> set ranked \<subseteq> set totals
            \<and> (\<forall>kv \<in> set ranked. \<forall>kv' \<in> set totals. kv' \<notin> set ranked \<longrightarrow> snd kv' \<le> snd kv)
            \<and> (\<forall>c. \<exists>rest. filter (\<lambda>kv. snd kv = c) totals
                              = filter (\<lambda>kv. snd kv = c) ranked @ rest))"
proof -
  define kd where
    "kd s = fold (\<lambda>kv. dict_incr (fst kv) (snd kv)) (map (\<lambda>w. (w, 1)) (substrings_from s k 1 0)) []"
    for s
  define per_seq where "per_seq = map kd (sequences seq_obj)"
  define order where "order = first_seen (concat (map keys per_seq))"
  define totals where "totals = map (\<lambda>key. (key, \<Sum>d\<leftarrow>per_seq. value_or_0 d key)) order"
  define j where "j = nat (if top' < 0 then top' + int (length totals) else top')"
  define ranked where "ranked = take j (sort_key (\<lambda>kv. - snd kv) totals)"
  let ?s = "sort_key (\<lambda>kv. - snd kv) totals"
  have a: "apply_foreach seq_obj (\<lambda>seq. find_k_mers seq k) = Inr per_seq"
    unfolding apply_foreach_def per_seq_def
    by (rule apply_each_pure) (simp add: find_k_mers_fold kd_def)
  have "\<forall>d \<in> set per_seq. distinct (keys d)"
    by (auto simp: per_seq_def kd_def find_k_mers_distinct)
  then have agg: "fold (\<lambda>kv. dict_incr (fst kv) (snd kv)) (concat per_seq) [] = totals"
    unfolding totals_def order_def by (rule aggregated_totals)
  have "py_slice ?s 0 top' = ranked"
    unfolding ranked_def j_def top_slice_any by simp
  then have r: "find_top_k_mers seq_obj top' k False = Inr [ranked]"
    by (simp add: find_top_k_mers_def a aggregate_all agg get_top_values_def)
  have len: "int (length ranked) \<le> top'" if "0 \<le> top'"
    using that by (simp add: ranked_def j_def)
  have len2: "length ranked = min (nat top') (length order)" if "0 \<le> top'"
    using that by (simp add: ranked_def j_def totals_def min.commute)
  have srt: "sorted_wrt (\<ge>) (map snd ranked)"
    unfolding ranked_def take_map[symmetric] by (rule sorted_wrt_take) (rule sorted_by_count_desc)
  have sub: "set ranked \<subseteq> set totals"
    unfolding ranked_def using set_take_subset[of j ?s] by simp
  then have tot: "\<forall>kv \<in> set ranked. snd kv = (\<Sum>d\<leftarrow>per_seq. value_or_0 d (fst kv))"
    by (auto simp: totals_def)
  have best: "\<forall>kv \<in> set ranked. \<forall>kv' \<in> set totals. kv' \<notin> set ranked \<longrightarrow> snd kv' \<le> snd kv"
    using take_sorted_top[OF sorted_by_count_desc, of j totals] by (simp add: ranked_def)
  have tie: "\<exists>rest. filter (\<lambda>kv. snd kv = c) totals = filter (\<lambda>kv. snd kv = c) ranked @ rest" for c
  proof -
    have "filter (\<lambda>kv. snd kv = c) totals = filter (\<lambda>kv. snd kv = c) ?s"
      by (rule stable_by_count[symmetric])
    also have "?s = ranked @ drop j ?s" by (simp add: ranked_def)
    finally have "filter (\<lambda>kv. snd kv = c) totals
        = filter (\<lambda>kv. snd kv = c) ranked @ filter (\<lambda>kv. snd kv = c) (drop j ?s)"
      by simp
    then show ?thesis by blast
  qed
  have "apply_foreach seq_obj (\<lambda>seq. find_k_mers seq k) = Inr per_seq
     \<and> find_top_k_mers seq_obj top' k False = Inr [ranked]
     \<and> (0 \<le> top' \<longrightarrow> int (length ranked) \<le> top')
     \<and> sorted_wrt (\<ge>) (map snd ranked)
     \<and> (\<forall>kv \<in> set ranked. snd kv = (\<Sum>d\<leftarrow>per_seq. value_or_0 d (fst kv)))
     \<and> (let order = first_seen (concat (map keys per_seq));
             totals = map (\<lambda>key. (key, \<Sum>d\<leftarrow>per_seq. value_or_0 d key)) order
         in (0 \<le> top' \<longrightarrow> length ranked = min (nat top') (length order))
            \<and> set ranked \<subseteq> set totals
            \<and> (\<forall>kv \<in> set ranked. \<forall>kv' \<in> set totals. kv' \<notin> set ranked \<longrightarrow> snd kv' \<le> snd kv)
            \<and> (\<forall>c. \<exists>rest. filter (\<lambda>kv. snd kv = c) totals
                              = filter (\<lambda>kv. snd kv = c) ranked @ rest))"
    unfolding Let_def order_def[symmetric] totals_def[symmetric]
    using a r len len2 srt tot sub best tie by blast
  then show ?thesis by blast
qed

theorem C4_top_k_mers_combined_witness:
  "(0::int) \<le> 2
   \<and> find_top_k_mers \<lparr>num_sequences = 2, sequence_length = 4, sequences = [''ABAB'', ''BAB'']\<rparr> 2 2 False
       = Inr [[(''AB'', 3), (''BA'', 2)]]
   \<and> int (length [(''AB'', 3::int), (''BA'', 2)]) \<le> 2
   \<and> sorted_wrt (\<ge>) (map snd [(''AB'', 3::int), (''BA'', 2)])"
proof -
  let ?obj = "\<lparr>num_sequences = 2, sequence_length = 4, sequences = [''ABAB'', ''BAB'']\<rparr>"
  have h: "(0::int) \<le> 2" by simp
  have v: "find_top_k_mers ?obj 2 2 False = Inr [[(''AB'', 3), (''BA'', 2)]]"
    by code_simp
  from C4_top_k_mers_combined[of ?obj 2 2] obtain ranked where
    "find_top_k_mers ?obj 2 2 False = Inr [ranked]"
    "0 \<le> (2::int) \<longrightarrow> int (length ranked) \<le> 2"
    "sorted_wrt (\<ge>) (map snd ranked)"
    by blast
  with h v show ?thesis by simp
qed

section \<open>GC distribution\<close>

text \<open>
  Claim C1 says that the GC distribution lies in \<open>[0, 1]\<close> whenever \<open>total_valid > 0\<close>.
  \<open>get_gc_stats\<close> counts every \<open>C\<close> and \<open>G\<close> of the sequence, also when the alphabet
  declares them invalid: for \<open>GGA\<close> and the alphabet \<open>A, B, C\<close> there is one valid base,
  two counted bases, and the GC distribution is 2.
\<close>

theorem C1_gc_distribution_above_one:
  "int (length ''GGA'') - int (length (filter (\<lambda>base. [base] \<notin> set [''A'', ''B'', ''C'']) ''GGA'')) = 1
   \<and> get_gc_stats ''GGA'' (Some [''A'', ''B'', ''C''])
       = Inr [(''gc_distribution'', 2), (''gc_skew'', 1)]"
  by (simp add: get_gc_stats_def py_truediv_def Let_def)

end
